theory Spec2Isabelle
  imports Main "HOL-Library.Sublist"
begin

section \<open>Go string primitives used by cmd.go\<close>

text \<open>
  Go strings are byte sequences; \<^typ>\<open>string\<close> is a list of bytes. The functions of
  package \<open>strings\<close> that \<open>cmd.go\<close> and the console call are written out here.
\<close>

text \<open>\<open>strings.Contains(s, substr)\<close>: \<open>substr\<close> occurs in \<open>s\<close> as a contiguous block.\<close>

fun Contains :: "string \<Rightarrow> string \<Rightarrow> bool" where
  "Contains [] substr = (substr = [])"
| "Contains (c # cs) substr = (prefix substr (c # cs) \<or> Contains cs substr)"

text \<open>
  \<open>strings.Replace(s, old, new, -1)\<close>: every non-overlapping occurrence of \<open>old\<close>, found
  from the left, is replaced by \<open>new\<close>. For an empty \<open>old\<close> Go inserts \<open>new\<close> before
  every UTF-8 sequence and at the end; the first branch does so byte by byte, which is
  the same on ASCII text. No call in \<open>cmd.go\<close> or the console passes an empty \<open>old\<close>:
  each one is guarded by a test against the empty string or prepends a marker.
\<close>

fun Replace :: "string \<Rightarrow> string \<Rightarrow> string \<Rightarrow> string" where
  "Replace [] old new = (if old = [] then new else [])"
| "Replace (c # cs) old new =
     (if old = [] then new @ c # Replace cs old new
      else if prefix old (c # cs) then new @ Replace (drop (length old) (c # cs)) old new
      else c # Replace cs old new)"

text \<open>
  \<open>strings.SplitN(s, sep, n)\<close> for a one-byte separator (both call sites split on a
  single byte): at most \<open>n\<close> fields, the last one the unsplit remainder; \<open>n = 0\<close>
  gives no field at all.
\<close>

fun SplitN :: "string \<Rightarrow> char \<Rightarrow> nat \<Rightarrow> string list" where
  "SplitN s sep 0 = []"
| "SplitN s sep (Suc 0) = [s]"
| "SplitN s sep (Suc (Suc n)) =
     (case dropWhile (\<lambda>c. c \<noteq> sep) s of
        [] \<Rightarrow> [s]
      | _ # rest \<Rightarrow> takeWhile (\<lambda>c. c \<noteq> sep) s # SplitN rest sep (Suc n))"

text \<open>\<open>strings.Split(s, sep)\<close> is \<open>SplitN\<close> with one field more than \<open>sep\<close> occurs.\<close>

definition Split :: "string \<Rightarrow> char \<Rightarrow> string list" where
  "Split s sep = SplitN s sep (Suc (count_list s sep))"

abbreviation newline :: char where
  "newline \<equiv> CHR 0x0A"

abbreviation space :: char where
  "space \<equiv> CHR '' ''"

section \<open>The search-highlight rescan of \<open>peek\<close>\<close>

text \<open>\<open>fmt.Sprintf(SearchHighlightFmt, s)\<close> with the constant \<open>"[blue:gray]%s[-:-]"\<close>.\<close>

definition SearchHighlightFmt :: "string \<Rightarrow> string" where
  "SearchHighlightFmt s = ''[blue:gray]'' @ s @ ''[-:-]''"

text \<open>Lines 490-494: clear the highlight of the previous search term.\<close>

definition clear_old :: "string \<Rightarrow> string \<Rightarrow> string" where
  "clear_old prev content =
     (if prev \<noteq> [] \<and> Contains content (SearchHighlightFmt prev)
      then Replace content (SearchHighlightFmt prev) prev
      else content)"

text \<open>Lines 497-502: highlight the new term unless a highlight of it is already there.\<close>

definition highlight_new :: "string \<Rightarrow> string \<Rightarrow> string" where
  "highlight_new search content =
     (if search \<noteq> [] \<and> \<not> Contains content (SearchHighlightFmt search) \<and> Contains content search
      then Replace content search (SearchHighlightFmt search)
      else content)"

definition updatedContent :: "string \<Rightarrow> string \<Rightarrow> string \<Rightarrow> string" where
  "updatedContent search prev content = highlight_new search (clear_old prev content)"

text \<open>
  The loop over the lines of the text view (lines 471-505); \<open>updatedData\<close> is the
  accumulator the loop appends to.
\<close>

fun rescan_loop :: "string \<Rightarrow> string \<Rightarrow> string list \<Rightarrow> string \<Rightarrow> string" where
  "rescan_loop search prev [] updatedData = updatedData"
| "rescan_loop search prev (line # rest) updatedData =
     (if line = [] then rescan_loop search prev rest updatedData
      else
        (let splitLine = SplitN line space 3 in
         if length splitLine < 3
         then rescan_loop search prev rest (updatedData @ line @ [newline])
         else rescan_loop search prev rest
                (updatedData @ splitLine ! 0 @ [space] @ splitLine ! 1 @ [space]
                   @ updatedContent search prev (splitLine ! 2) @ [newline])))"

text \<open>The text the rescan hands to \<open>SetText\<close>, from the text \<open>GetText(false)\<close> returned.\<close>

definition rescan :: "string \<Rightarrow> string \<Rightarrow> string \<Rightarrow> string" where
  "rescan search prev text = rescan_loop search prev (Split text newline) []"

text \<open>Lines 465-511: the rescan runs only when a search or a previous search is set.\<close>

definition set_search_highlight :: "string \<Rightarrow> string \<Rightarrow> string \<Rightarrow> string" where
  "set_search_highlight search prev text =
     (if search \<noteq> [] \<or> prev \<noteq> [] then rescan search prev text else text)"

text \<open>
  Every write to the text view is one line followed by a newline, so the text the
  rescan reads is a sequence of such lines. \<open>updated_line\<close> is what one pass of the loop
  body appends for a non-empty line, without the closing newline.
\<close>

definition joinLines :: "string list \<Rightarrow> string" where
  "joinLines ls = concat (map (\<lambda>l. l @ [newline]) ls)"

definition updated_line :: "string \<Rightarrow> string \<Rightarrow> string \<Rightarrow> string" where
  "updated_line search prev line =
     (let splitLine = SplitN line space 3 in
      if length splitLine < 3 then line
      else splitLine ! 0 @ [space] @ splitLine ! 1 @ [space]
             @ updatedContent search prev (splitLine ! 2))"

text \<open>A string no proper non-empty suffix of which is also a prefix of it.\<close>

definition unbordered :: "'a list \<Rightarrow> bool" where
  "unbordered h \<longleftrightarrow> (\<forall>u v. h = u @ v \<longrightarrow> u \<noteq> [] \<longrightarrow> v \<noteq> [] \<longrightarrow> \<not> prefix v h)"

section \<open>Actions, the command state and the console\<close>

text \<open>
  Modelled from the spec: package \<open>types\<close> (the \<open>Action\<close> struct and the \<open>Step\<close>
  constants) is not among the sources. The variants are the seven steps \<open>run\<close> switches
  on; \<open>Step\<close> is an integer type (it is printed with \<open>%d\<close>), so \<open>StepOther\<close> stands for
  every other value and reaches the \<open>default\<close> branch. The fields are the four that
  \<open>cmd.go\<close> reads and writes.
\<close>

datatype step = StepConnect | StepSelect | StepPeek | StepFilter | StepSearch | StepPause
  | StepQuit | StepOther int

record Action =
  Step :: step
  PeekComponent :: string
  PeekFilter :: string
  PeekSearch :: string
  PeekSearchPrev :: string

text \<open>The literal \<open>&types.Action{Step: s}\<close>: every other field has Go's zero value.\<close>

definition action_of :: "step \<Rightarrow> Action" where
  "action_of s = \<lparr>Step = s, PeekComponent = [], PeekFilter = [], PeekSearch = [],
     PeekSearchPrev = []\<rparr>"

text \<open>
  The fields of \<open>Cmd\<close> that the handlers touch, and the menu text of the console it
  owns. \<open>api\<close> tells whether \<open>c.api\<close> has been set; \<open>textview\<close> is \<open>None\<close> for the nil
  pointer and otherwise holds the text of the view. The view's line limit
  (\<open>SetMaxLines\<close>) belongs to the widget library and is not part of the state.
\<close>

record Cmd =
  api :: bool
  textview :: "string option"
  previousSearch :: string
  paused :: bool
  announceFilter :: bool
  menu :: string

definition MenuString :: string where
  \<open>MenuString = ''Q ["Q"][darkcyan]Quit[white][""]  '' @
     ''S ["S"][darkcyan]Select Component[white][""]  '' @
     ''R ["R"][darkcyan]Set Sample Rate[white][""]  '' @
     ''F ["F"][darkcyan]Filter[white][""]  '' @
     ''P ["P"][darkcyan]Pause[white][""]  '' @
     ''/ ["Search"][darkcyan]Search[white][""]''\<close>

definition New :: Cmd where
  "New = \<lparr>api = False, textview = None, previousSearch = [], paused = False,
     announceFilter = False, menu = MenuString\<rparr>"

text \<open>\<open>toggleMenuEntry\<close>, \<open>SetMenuEntryOn\<close> and \<open>SetMenuEntryOff\<close> of the console.\<close>

definition toggleMenuEntry :: "string \<Rightarrow> string \<Rightarrow> bool \<Rightarrow> string" where
  "toggleMenuEntry menuText text on =
     (let replaceOld = (if \<not> on then ''[lightcyan]'' @ text @ ''[-]'' else ''[darkcyan]'' @ text);
          replaceNew = (if \<not> on then ''[darkcyan]'' @ text else ''[lightcyan]'' @ text @ ''[-]'')
      in Replace menuText replaceOld replaceNew)"

definition SetMenuEntryOn :: "Cmd \<Rightarrow> string \<Rightarrow> Cmd" where
  "SetMenuEntryOn c item = c\<lparr>menu := toggleMenuEntry (menu c) item True\<rparr>"

definition SetMenuEntryOff :: "Cmd \<Rightarrow> string \<Rightarrow> Cmd" where
  "SetMenuEntryOff c item = c\<lparr>menu := toggleMenuEntry (menu c) item False\<rparr>"

text \<open>
  \<open>fmt.Fprint(textView, s)\<close> appends to the view, and \<open>GetText(false)\<close> is taken to
  return what has been written. \<open>peek\<close> is only called by \<open>actionPeek\<close>, after the view
  has been created.
\<close>

definition view_text :: "Cmd \<Rightarrow> string" where
  "view_text c = (case textview c of None \<Rightarrow> [] | Some t \<Rightarrow> t)"

definition Fprint :: "Cmd \<Rightarrow> string \<Rightarrow> Cmd" where
  "Fprint c s = c\<lparr>textview := Some (view_text c @ s)\<rparr>"

section \<open>What the handlers wait for\<close>

text \<open>
  Each handler blocks on channels and calls that the user, the server and the producer
  goroutine answer. Their answers are the input of the model, one list per source, read
  in order; a handler that finds its list empty waits for ever (\<open>HBlocked\<close>).
  \<^item> \<open>connects\<close>: for each call of \<open>connect\<close>, the error it returned (if any) and the
    value of \<open>userQuit\<close> read afterwards (set when the user pressed Cancel on the
    spinner);
  \<^item> \<open>fetches\<close>: the same for \<open>GetAllLiveAudiences\<close>, with the component names on success;
  \<^item> \<open>retries\<close>: the answers given to the retry dialog;
  \<^item> \<open>selects\<close>: what happens on the select list: the \<open>q\<close> key or a chosen entry;
  \<^item> \<open>forms\<close>: for each filter or search form, the edits and button presses;
  \<^item> \<open>peeks\<close>: for each call of \<open>peek\<close>, the clock reading at entry and the events its
    \<open>select\<close> loop receives, in the order it receives them: a key typed in the peek
    view, or a line from \<open>dataCh\<close> together with the value of \<open>i\<close> read for its prefix;
    each event carries the clock reading taken while it is handled.
\<close>

datatype form_event = Changed string | OK | Reset | Cancel

datatype peek_event = Key char string | Data string nat string

datatype select_event = QuitKey | Selected string

record env =
  connects :: "(string option \<times> bool) list"
  fetches :: "((string + string list) \<times> bool) list"
  retries :: "bool list"
  selects :: "select_event list"
  forms :: "form_event list list"
  peeks :: "(string \<times> peek_event list) list"

text \<open>
  A handler returns the next action (with the new state and what is left of the input),
  returns an error, ends the process, or never returns.
\<close>

datatype handler_result = HRet Action Cmd env | HErr string | HExit | HBlocked

text \<open>\<open>errors.Wrap(err, message)\<close>, as the text \<open>Error()\<close> gives.\<close>

definition Wrap :: "string \<Rightarrow> string \<Rightarrow> string" where
  "Wrap err message = message @ '': '' @ err"

section \<open>The filter and search forms\<close>

text \<open>
  \<open>DisplayFilter\<close> and \<open>DisplaySearch\<close> of the console: the input field's callback
  records the edited text and sets \<open>hit\<close>; the first button pressed sends the answer.
\<close>

fun form_answer :: "string \<Rightarrow> bool \<Rightarrow> string \<Rightarrow> form_event list \<Rightarrow> string option" where
  "form_answer defaultValue hit input [] = None"
| "form_answer defaultValue hit input (Changed text # evs) = form_answer defaultValue True text evs"
| "form_answer defaultValue hit input (OK # evs) = Some (if \<not> hit then defaultValue else input)"
| "form_answer defaultValue hit input (Reset # evs) = Some []"
| "form_answer defaultValue hit input (Cancel # evs) = Some defaultValue"

definition DisplayFilter :: "string \<Rightarrow> form_event list \<Rightarrow> string option" where
  "DisplayFilter defaultValue evs = form_answer defaultValue False [] evs"

definition DisplaySearch :: "string \<Rightarrow> form_event list \<Rightarrow> string option" where
  "DisplaySearch defaultValue evs = form_answer defaultValue False [] evs"

definition actionFilter :: "Cmd \<Rightarrow> Action \<Rightarrow> env \<Rightarrow> handler_result" where
  "actionFilter c action e =
     (case forms e of
        [] \<Rightarrow> HBlocked
      | evs # rest \<Rightarrow>
          (case DisplayFilter (PeekFilter action) evs of
             None \<Rightarrow> HBlocked
           | Some filterStr \<Rightarrow>
               (let c1 = (if filterStr \<noteq> [] then SetMenuEntryOn c ''Filter''
                          else SetMenuEntryOff c ''Filter'');
                    c2 = c1\<lparr>announceFilter := True\<rparr>
                in HRet \<lparr>Step = StepPeek, PeekComponent = PeekComponent action,
                          PeekFilter = filterStr, PeekSearch = [], PeekSearchPrev = []\<rparr>
                     c2 (e\<lparr>forms := rest\<rparr>))))"

definition actionSearch :: "Cmd \<Rightarrow> Action \<Rightarrow> env \<Rightarrow> handler_result" where
  "actionSearch c action e =
     (case forms e of
        [] \<Rightarrow> HBlocked
      | evs # rest \<Rightarrow>
          (case DisplaySearch (PeekSearch action) evs of
             None \<Rightarrow> HBlocked
           | Some searchStr \<Rightarrow>
               (let c1 = (if searchStr \<noteq> [] then SetMenuEntryOn c ''Search''
                          else SetMenuEntryOff c ''Search'')
                in HRet \<lparr>Step = StepPeek, PeekComponent = PeekComponent action,
                          PeekFilter = [], PeekSearch = searchStr,
                          PeekSearchPrev = PeekSearch action\<rparr>
                     c1 (e\<lparr>forms := rest\<rparr>))))"

section \<open>Connect and Select\<close>

text \<open>
  \<open>actionConnect\<close>: the error of \<open>connect\<close> is tested first and leads to the retry
  dialog; \<open>userQuit\<close> is read only when \<open>connect\<close> returned no error. \<open>connect\<close> stores
  the client in \<open>c.api\<close> when it succeeds.
\<close>

definition actionConnect :: "Cmd \<Rightarrow> Action \<Rightarrow> env \<Rightarrow> handler_result" where
  "actionConnect c action e =
     (case connects e of
        [] \<Rightarrow> HBlocked
      | (err, userQuit) # rest \<Rightarrow>
          (case err of
             Some msg \<Rightarrow>
               (case retries e of
                  [] \<Rightarrow> HBlocked
                | retry # answers \<Rightarrow>
                    (if retry
                     then HRet (action_of StepConnect) c (e\<lparr>connects := rest, retries := answers\<rparr>)
                     else HRet (action_of StepQuit) c (e\<lparr>connects := rest, retries := answers\<rparr>)))
           | None \<Rightarrow>
               (if userQuit
                then HRet (action_of StepQuit) (c\<lparr>api := True\<rparr>) (e\<lparr>connects := rest\<rparr>)
                else HRet (action_of StepSelect) (c\<lparr>api := True\<rparr>) (e\<lparr>connects := rest\<rparr>))))"

text \<open>
  \<open>actionSelect\<close>: the list shows one entry per fetched component, so only a fetched
  component can be chosen.
\<close>

definition actionSelect :: "Cmd \<Rightarrow> Action \<Rightarrow> env \<Rightarrow> handler_result" where
  "actionSelect c action e =
     (case fetches e of
        [] \<Rightarrow> HBlocked
      | (audiences, userQuit) # rest \<Rightarrow>
          (case audiences of
             Inl err \<Rightarrow>
               (case retries e of
                  [] \<Rightarrow> HBlocked
                | retry # answers \<Rightarrow>
                    (if retry
                     then HRet (action_of StepSelect) c (e\<lparr>fetches := rest, retries := answers\<rparr>)
                     else HRet (action_of StepQuit) c (e\<lparr>fetches := rest, retries := answers\<rparr>)))
           | Inr components \<Rightarrow>
               (if userQuit then HRet (action_of StepQuit) c (e\<lparr>fetches := rest\<rparr>)
                else
                  (case selects e of
                     [] \<Rightarrow> HBlocked
                   | QuitKey # later \<Rightarrow>
                       HRet (action_of StepQuit) c (e\<lparr>fetches := rest, selects := later\<rparr>)
                   | Selected component # later \<Rightarrow>
                       (if component \<in> set components
                        then HRet ((action_of StepPeek)\<lparr>PeekComponent := component\<rparr>) c
                               (e\<lparr>fetches := rest, selects := later\<rparr>)
                        else HBlocked)))))"

section \<open>Peek\<close>

text \<open>\<open>strings.Repeat\<close>, and the UTF-8 bytes of the shade character of the banners.\<close>

definition Repeat :: "string \<Rightarrow> nat \<Rightarrow> string" where
  "Repeat s count = concat (replicate count s)"

definition shade :: string where
  "shade = [CHR 0xE2, CHR 0x96, CHR 0x91]"

text \<open>The pause banner (lines 540-546); \<open>isPaused\<close> is \<open>c.paused\<close> after the toggle.\<close>

definition pauseLine :: "bool \<Rightarrow> string \<Rightarrow> string" where
  "pauseLine isPaused now =
     ''[gray:black]'' @ Repeat shade 16
       @ (if \<not> isPaused then '' RESUMED @ '' @ now else '' PAUSED @ '' @ now)
       @ Repeat shade 16 @ ''[-:-]''"

text \<open>The filter banner (lines 443-444), before it is handed to \<open>fmt.Fprintf\<close>.\<close>

definition filterLine :: "string \<Rightarrow> string \<Rightarrow> string" where
  "filterLine peekFilter now =
     ''[gray:black]'' @ Repeat shade 16
       @ ('' Filter set to '' @ [CHR 0x27] @ peekFilter @ [CHR 0x27] @ '' @ '' @ now)
       @ Repeat shade 16 @ ''[-:-]''"

text \<open>Decimal digits of a natural number, as \<open>%d\<close> prints them.\<close>

fun Itoa :: "nat \<Rightarrow> string" where
  "Itoa n = (if n < 10 then [''0123456789'' ! n]
             else Itoa (n div 10) @ [''0123456789'' ! (n mod 10)])"

fun show_int :: "int \<Rightarrow> string" where
  "show_int n = (if n < 0 then ''-'' @ Itoa (nat (- n)) else Itoa (nat n))"

text \<open>Lines 563-565 and 569-574: the highlights given to a line when it arrives.\<close>

definition highlight_filter :: "string \<Rightarrow> string \<Rightarrow> string" where
  "highlight_filter peekFilter data =
     (if peekFilter \<noteq> []
      then Replace data peekFilter (''[green:gray]'' @ peekFilter @ ''[-:-]'')
      else data)"

definition highlight_incoming :: "string \<Rightarrow> string \<Rightarrow> string" where
  "highlight_incoming search data =
     (if search \<noteq> []
      then (if Contains data search then Replace data search (SearchHighlightFmt search) else data)
      else data)"

text \<open>
  The input capture \<open>DisplayPeek\<close> installs: the action a key sends on \<open>actionCh\<close>,
  if any.
\<close>

definition DisplayPeek_key :: "string \<Rightarrow> char \<Rightarrow> Action option" where
  "DisplayPeek_key title r =
     (if r = CHR ''q'' then Some (action_of StepQuit)
      else if r = CHR ''s'' then Some (action_of StepSelect)
      else if r = CHR ''p'' then Some (action_of StepPause)
      else if r = CHR ''f'' then Some ((action_of StepFilter)\<lparr>PeekComponent := title\<rparr>)
      else if r = CHR ''/'' then Some ((action_of StepSearch)\<lparr>PeekComponent := title\<rparr>)
      else None)"

text \<open>
  The \<open>for\<close>/\<open>select\<close> loop of \<open>peek\<close> (lines 522-584). A command ends the loop: after
  the \<open>if cmd.Step == types.StepPause\<close> block the code falls through to the re-injection
  of the settings and to \<open>return cmd, nil\<close>, for a pause as for every other command.
  \<open>None\<close>: the events ran out and the loop waits.
\<close>

fun peek_loop :: "Cmd \<Rightarrow> Action \<Rightarrow> peek_event list \<Rightarrow> (Action \<times> Cmd) option" where
  "peek_loop c action [] = None"
| "peek_loop c action (Key r now # events) =
     (case DisplayPeek_key (PeekComponent action) r of
        None \<Rightarrow> peek_loop c action events
      | Some cmd \<Rightarrow>
          (let c' =
             (if Step cmd = StepPause
              then (let c1 = c\<lparr>paused := \<not> paused c\<rparr>;
                        c2 = (if paused c1 then SetMenuEntryOn c1 ''Pause''
                              else SetMenuEntryOff c1 ''Pause'')
                    in Fprint c2 (pauseLine (paused c2) now @ [newline]))
              else c)
           in Some (cmd\<lparr>PeekComponent := PeekComponent action,
                         PeekFilter := PeekFilter action,
                         PeekSearch := PeekSearch action,
                         PeekSearchPrev := PeekSearchPrev action\<rparr>, c')))"
| "peek_loop c action (Data data i now # events) =
     (if \<not> Contains data (PeekFilter action) then peek_loop c action events
      else
        (let data1 = highlight_filter (PeekFilter action) data;
             data2 = highlight_incoming (PeekSearch action) data1;
             pre = Itoa i @ '': [gray:black]'' @ now @ ''[-:-] ''
         in peek_loop (Fprint c (pre @ data2 @ [newline])) action events))"

text \<open>
  \<open>peek\<close>. The filter banner is written with \<open>fmt.Fprintf\<close> and the banner as the
  format string, so a \<open>%\<close> in the filter is read as a verb; the parameter \<open>Fprintf\<close> is
  what \<open>fmt\<close> writes for a format string without operands (the string itself when it
  has no \<open>%\<close>). \<open>Redraw\<close> is taken to have run when \<open>peek\<close> enters its loop.
\<close>

definition peek :: "(string \<Rightarrow> string) \<Rightarrow> Cmd \<Rightarrow> Action \<Rightarrow> env \<Rightarrow> handler_result" where
  "peek Fprintf c action e =
     (if PeekComponent action = []
      then HErr ''peek(): bug? *Action.PeekComponent cannot be empty''
      else
        (case peeks e of
           [] \<Rightarrow> HBlocked
         | (now, events) # rest \<Rightarrow>
             (let c1 = (if announceFilter c
                        then (Fprint c (Fprintf (filterLine (PeekFilter action) now @ [newline])))
                               \<lparr>announceFilter := False\<rparr>
                        else c);
                  c2 = c1\<lparr>textview :=
                         Some (set_search_highlight (PeekSearch action) (PeekSearchPrev action)
                                 (view_text c1))\<rparr>
              in (case peek_loop c2 action events of
                    None \<Rightarrow> HBlocked
                  | Some (cmd, c3) \<Rightarrow> HRet cmd c3 (e\<lparr>peeks := rest\<rparr>)))))"

text \<open>
  \<open>actionPeek\<close>. An action is a value here, so the test for a nil action has no
  counterpart: every handler returns either an action or an error. The \<open>for\<close> around
  the call of \<open>peek\<close> returns in its first pass.
\<close>

definition actionPeek :: "(string \<Rightarrow> string) \<Rightarrow> Cmd \<Rightarrow> Action \<Rightarrow> env \<Rightarrow> handler_result" where
  "actionPeek Fprintf c action e =
     (if PeekComponent action = []
      then HErr ''actionPeek(): bug? PeekComponent cannot be empty''
      else
        (let c1 = (case textview c of None \<Rightarrow> c\<lparr>textview := Some []\<rparr> | Some t \<Rightarrow> c)
         in (case peek Fprintf c1 action e of
               HErr err \<Rightarrow> HErr (Wrap err ''unable to peek'')
             | r \<Rightarrow> r)))"

section \<open>The dispatcher\<close>

text \<open>The \<open>switch\<close> of \<open>run\<close> (lines 73-92). \<open>StepQuit\<close> stops the console and exits.\<close>

definition dispatch :: "(string \<Rightarrow> string) \<Rightarrow> Cmd \<Rightarrow> Action \<Rightarrow> env \<Rightarrow> handler_result" where
  "dispatch Fprintf c action e =
     (case Step action of
        StepConnect \<Rightarrow> actionConnect c action e
      | StepSelect \<Rightarrow> actionSelect c action e
      | StepPeek \<Rightarrow> actionPeek Fprintf c action e
      | StepFilter \<Rightarrow> actionFilter c action e
      | StepSearch \<Rightarrow> actionSearch c action e
      | StepQuit \<Rightarrow> HExit
      | StepPause \<Rightarrow> actionPeek Fprintf c action e
      | StepOther n \<Rightarrow> HErr (''unknown action step: '' @ show_int n))"

text \<open>
  How a run ends: the process exited with status 0, \<open>run\<close> returned an error, or a
  handler waits for input that does not come.
\<close>

datatype outcome = Exited | Failed string | Blocked

text \<open>
  \<open>visited\<close> lists the steps dispatched, in order. \<open>frames\<close> is the number of activations
  of \<open>run\<close> on the stack when the run ends: \<open>run\<close> ends with \<open>return c.run(resp)\<close>, a call
  made from inside the current activation, so the callee runs one level deeper.
\<close>

record run_result =
  visited :: "step list"
  frames :: nat
  outcome :: outcome

definition pending :: "env \<Rightarrow> nat" where
  "pending e = length (connects e) + length (fetches e) + length (forms e) + length (peeks e)"

text \<open>
  \<open>run\<close> (lines 67-99); \<open>depth\<close> is the number of activations of \<open>run\<close> on the stack,
  this one included. Every handler that returns an action has read from the input, so
  on a finite input the recursion ends.
\<close>

function run :: "(string \<Rightarrow> string) \<Rightarrow> nat \<Rightarrow> Cmd \<Rightarrow> Action \<Rightarrow> env \<Rightarrow> run_result" where
  "run Fprintf depth c action e =
     (case dispatch Fprintf c action e of
        HErr err \<Rightarrow>
          \<lparr>visited = [Step action], frames = depth,
            outcome = Failed (Wrap err ''unable to run action'')\<rparr>
      | HExit \<Rightarrow> \<lparr>visited = [Step action], frames = depth, outcome = Exited\<rparr>
      | HBlocked \<Rightarrow> \<lparr>visited = [Step action], frames = depth, outcome = Blocked\<rparr>
      | HRet resp c' e' \<Rightarrow>
          (let r = run Fprintf (Suc depth) c' resp e'
           in r\<lparr>visited := Step action # visited r\<rparr>))"
  by pat_completeness auto
termination
  by (relation "measure (\<lambda>(Fprintf, depth, c, action, e). pending e)")
     (auto simp: dispatch_def actionConnect_def actionSelect_def actionFilter_def
        actionSearch_def actionPeek_def peek_def pending_def Let_def
        split: step.splits list.splits option.splits sum.splits if_splits prod.splits
          handler_result.splits select_event.splits)

text \<open>\<open>Run\<close>: the first activation of \<open>run\<close>, with a connection attempt.\<close>

definition Run :: "(string \<Rightarrow> string) \<Rightarrow> Cmd \<Rightarrow> env \<Rightarrow> run_result" where
  "Run Fprintf c e = run Fprintf 1 c (action_of StepConnect) e"

text \<open>The input on which nothing ever answers.\<close>

definition env0 :: env where
  "env0 = \<lparr>connects = [], fetches = [], retries = [], selects = [], forms = [], peeks = []\<rparr>"

declare run.simps [simp del]

section \<open>Facts about the string primitives\<close>

lemma Contains_sublist: "Contains s sub \<longleftrightarrow> sublist sub s"
  by (induction s) (auto simp: sublist_Cons_right)

lemma dropWhile_sep_Cons:
  assumes "dropWhile (\<lambda>c. c \<noteq> sep) s = x # rest"
  shows "x = sep" and "s = takeWhile (\<lambda>c. c \<noteq> sep) s @ sep # rest"
    and "sep \<notin> set (takeWhile (\<lambda>c. c \<noteq> sep) s)"
proof -
  from assms have "dropWhile (\<lambda>c. c \<noteq> sep) s \<noteq> []" by simp
  from hd_dropWhile[OF this] assms show "x = sep" by simp
  with takeWhile_dropWhile_id[of "\<lambda>c. c \<noteq> sep" s] assms
  show "s = takeWhile (\<lambda>c. c \<noteq> sep) s @ sep # rest" by simp
  show "sep \<notin> set (takeWhile (\<lambda>c. c \<noteq> sep) s)"
    using set_takeWhileD by fastforce
qed

lemma SplitN_step:
  assumes "sep \<notin> set f"
  shows "SplitN (f @ sep # rest) sep (Suc (Suc n)) = f # SplitN rest sep (Suc n)"
proof -
  from assms have "\<forall>c\<in>set f. c \<noteq> sep" by auto
  then have "dropWhile (\<lambda>c. c \<noteq> sep) (f @ sep # rest) = sep # rest"
    and "takeWhile (\<lambda>c. c \<noteq> sep) (f @ sep # rest) = f"
    by (simp_all add: dropWhile_append2 takeWhile_append2)
  then show ?thesis by (simp del: dropWhile_eq_Nil_conv)
qed

lemma SplitN_no_sep:
  assumes "sep \<notin> set s"
  shows "SplitN s sep (Suc n) = [s]"
proof (cases n)
  case 0 then show ?thesis by simp
next
  case (Suc m)
  from assms have "dropWhile (\<lambda>c. c \<noteq> sep) s = []" by auto
  with Suc show ?thesis by (simp del: dropWhile_eq_Nil_conv)
qed

lemma SplitN3_fields:
  assumes "sep \<notin> set f0" "sep \<notin> set f1"
  shows "SplitN (f0 @ sep # f1 @ sep # c) sep 3 = [f0, f1, c]"
  using assms by (simp add: numeral_3_eq_3 SplitN_step del: SplitN.simps(3))

lemma SplitN3_cases:
  "SplitN line sep 3 = [line] \<and> sep \<notin> set line
   \<or> (\<exists>f0 f1. SplitN line sep 3 = [f0, f1] \<and> line = f0 @ sep # f1 \<and> sep \<notin> set f0 \<and> sep \<notin> set f1)
   \<or> (\<exists>f0 f1 c. SplitN line sep 3 = [f0, f1, c] \<and> line = f0 @ sep # f1 @ sep # c \<and> sep \<notin> set f0 \<and> sep \<notin> set f1)"
proof (cases "dropWhile (\<lambda>c. c \<noteq> sep) line")
  case Nil
  then have "sep \<notin> set line" by auto
  then show ?thesis by (simp add: SplitN_no_sep numeral_3_eq_3 del: SplitN.simps(3))
next
  case (Cons x rest)
  note l = dropWhile_sep_Cons[OF Cons]
  define f0 where "f0 = takeWhile (\<lambda>c. c \<noteq> sep) line"
  have line: "line = f0 @ sep # rest" and f0: "sep \<notin> set f0"
    using l by (simp_all add: f0_def)
  show ?thesis
  proof (cases "dropWhile (\<lambda>c. c \<noteq> sep) rest")
    case Nil
    then have r: "sep \<notin> set rest" by auto
    have "SplitN line sep 3 = [f0, rest]"
      unfolding line using f0 r
      by (simp add: numeral_3_eq_3 SplitN_step SplitN_no_sep del: SplitN.simps(3))
    with line f0 r show ?thesis by blast
  next
    case (Cons y c)
    note m = dropWhile_sep_Cons[OF Cons]
    define f1 where "f1 = takeWhile (\<lambda>c. c \<noteq> sep) rest"
    have rest: "rest = f1 @ sep # c" and f1: "sep \<notin> set f1"
      using m by (simp_all add: f1_def)
    have "SplitN line sep 3 = [f0, f1, c]"
      unfolding line rest using f0 f1 by (rule SplitN3_fields)
    with line rest f0 f1 show ?thesis by blast
  qed
qed

lemma SplitN_fields_no_sep:
  "count_list s sep < n \<Longrightarrow> f \<in> set (SplitN s sep n) \<Longrightarrow> sep \<notin> set f"
proof (induction s sep n arbitrary: f rule: SplitN.induct)
  case (1 s sep)
  then show ?case by simp
next
  case (2 s sep)
  then show ?case by (simp add: count_list_0_iff)
next
  case (3 s sep n)
  show ?case
  proof (cases "dropWhile (\<lambda>c. c \<noteq> sep) s")
    case Nil
    then have "sep \<notin> set s" by auto
    with 3(3) show ?thesis by (simp add: SplitN_no_sep del: SplitN.simps(3))
  next
    case (Cons x rest)
    note l = dropWhile_sep_Cons[OF Cons]
    have "count_list s sep = count_list (takeWhile (\<lambda>c. c \<noteq> sep) s) sep + Suc (count_list rest sep)"
      by (subst l(2)) simp
    with l(3) have "count_list s sep = Suc (count_list rest sep)"
      by (simp add: count_list_0_iff)
    with 3(2) have "count_list rest sep < Suc n" by simp
    then have "\<And>g. g \<in> set (SplitN rest sep (Suc n)) \<Longrightarrow> sep \<notin> set g"
      using 3(1)[OF Cons] by blast
    moreover from 3(3) Cons
    have "f = takeWhile (\<lambda>c. c \<noteq> sep) s \<or> f \<in> set (SplitN rest sep (Suc n))"
      by (simp del: dropWhile_eq_Nil_conv)
    ultimately show ?thesis using l(3) by blast
  qed
qed

lemma Split_fields_no_sep: "f \<in> set (Split s sep) \<Longrightarrow> sep \<notin> set f"
  using SplitN_fields_no_sep[of s sep "Suc (count_list s sep)" f] by (simp add: Split_def)

lemma Split_joinLines:
  "\<forall>l\<in>set ls. sep \<notin> set l \<Longrightarrow> Split (concat (map (\<lambda>l. l @ [sep]) ls)) sep = ls @ [[]]"
proof (induction ls)
  case Nil
  then show ?case by (simp add: Split_def)
next
  case (Cons l ls)
  then have l: "sep \<notin> set l" by simp
  then have "count_list (l @ sep # concat (map (\<lambda>l. l @ [sep]) ls)) sep
      = Suc (count_list (concat (map (\<lambda>l. l @ [sep]) ls)) sep)"
    by (simp add: count_list_0_iff)
  with Cons l show ?case by (simp add: Split_def SplitN_step del: SplitN.simps(3))
qed

section \<open>Replacing and replacing back\<close>

lemma Replace_prefix:
  assumes "old \<noteq> []"
  shows "Replace (old @ s) old new = new @ Replace s old new"
proof -
  from assms obtain y ys where old: "old = y # ys" by (cases old) auto
  have "Replace ((y # ys) @ s) (y # ys) new = new @ Replace s (y # ys) new"
    by simp
  with old show ?thesis by simp
qed

lemma Replace_not_prefix:
  assumes "old \<noteq> []" "\<not> prefix old (x # xs)"
  shows "Replace (x # xs) old new = x # Replace xs old new"
  using assms by simp

lemma Contains_Replace_new:
  "old \<noteq> [] \<Longrightarrow> Contains s old \<Longrightarrow> Contains (Replace s old new) new"
proof (induction s old new rule: Replace.induct)
  case (1 old new)
  then show ?case by simp
next
  case (2 c cs old new)
  show ?case
  proof (cases "prefix old (c # cs)")
    case True
    with 2(4) have "Replace (c # cs) old new = new @ Replace (drop (length old) (c # cs)) old new"
      by simp
    then show ?thesis by (simp add: Contains_sublist)
  next
    case False
    with 2(5) have "Contains cs old" by simp
    with 2(3)[OF 2(4) False 2(4)] have "Contains (Replace cs old new) new" .
    with False 2(4) show ?thesis by (simp add: Contains_sublist sublist_Cons_right)
  qed
qed

lemma highlight_new_idem: "highlight_new s (highlight_new s c) = highlight_new s c"
proof (cases "s \<noteq> [] \<and> \<not> Contains c (SearchHighlightFmt s) \<and> Contains c s")
  case True
  then have "Contains (Replace c s (SearchHighlightFmt s)) (SearchHighlightFmt s)"
    by (simp add: Contains_Replace_new)
  with True show ?thesis by (simp add: highlight_new_def)
next
  case False
  then have "highlight_new s c = c" by (auto simp: highlight_new_def)
  then show ?thesis by simp
qed

lemma updatedContent_idem:
  assumes "prev = [] \<or> \<not> Contains (updatedContent search prev c) (SearchHighlightFmt prev)"
  shows "updatedContent search prev (updatedContent search prev c) = updatedContent search prev c"
proof -
  from assms have "clear_old prev (updatedContent search prev c) = updatedContent search prev c"
    by (auto simp: clear_old_def)
  then show ?thesis
    by (simp add: updatedContent_def[of search prev "updatedContent search prev c"])
       (simp add: updatedContent_def highlight_new_idem)
qed

lemma Replace_first_occurrence:
  "old \<noteq> [] \<Longrightarrow> Replace s old new = s
     \<or> (\<exists>u rest. s = u @ old @ rest \<and> Replace s old new = u @ new @ Replace rest old new)"
proof (induction s old new rule: Replace.induct)
  case (1 old new)
  then show ?case by simp
next
  case (2 c cs old new)
  show ?case
  proof (cases "prefix old (c # cs)")
    case True
    then obtain rest where r: "c # cs = old @ rest" by (auto simp: prefix_def)
    then have "Replace (c # cs) old new = new @ Replace rest old new"
      using Replace_prefix[OF 2(4), of rest new] by simp
    with r have "c # cs = [] @ old @ rest \<and> Replace (c # cs) old new = [] @ new @ Replace rest old new"
      by simp
    then show ?thesis by blast
  next
    case False
    then have R: "Replace (c # cs) old new = c # Replace cs old new"
      using 2(4) by simp
    from 2(3)[OF 2(4) False 2(4)]
    consider "Replace cs old new = cs"
      | u rest where "cs = u @ old @ rest" "Replace cs old new = u @ new @ Replace rest old new"
      by blast
    then show ?thesis
    proof cases
      case 1
      with R show ?thesis by simp
    next
      case 2
      with R have "c # cs = (c # u) @ old @ rest
          \<and> Replace (c # cs) old new = (c # u) @ new @ Replace rest old new"
        by simp
      then show ?thesis by blast
    qed
  qed
qed

lemma no_early_match:
  assumes H: "unbordered H" "H \<noteq> []" and T: "T \<noteq> []"
    and np: "\<not> prefix T s" and nc: "\<not> Contains s H"
  shows "\<not> prefix H (Replace s T H)"
proof
  assume pre: "prefix H (Replace s T H)"
  from Replace_first_occurrence[OF T, of s H]
  consider "Replace s T H = s"
    | u rest where "s = u @ T @ rest" "Replace s T H = u @ H @ Replace rest T H"
    by blast
  then show False
  proof cases
    case 1
    with pre have "sublist H s" by (simp add: prefix_imp_sublist)
    with nc show False by (simp add: Contains_sublist)
  next
    case 2
    from 2(1) np have u: "u \<noteq> []" by auto
    from pre 2(2) have p: "prefix H (u @ H @ Replace rest T H)" by simp
    show False
    proof (cases "length H \<le> length u")
      case True
      with p have "prefix H u"
        by (metis prefix_append prefix_length_le prefix_order.dual_order.eq_iff prefix_length_prefix prefix_same_cases append_prefixD)
      then have "sublist H s" unfolding 2(1)
        by (meson prefix_imp_sublist sublist_appendI sublist_order.order.trans sublist_append_rightI)
      with nc show False by (simp add: Contains_sublist)
    next
      case False
      then have len: "length u < length H" by simp
      from p obtain z where z: "u @ H @ Replace rest T H = H @ z" by (auto simp: prefix_def)
      define v where "v = drop (length u) H"
      from z len have Hu: "H = u @ v"
        unfolding v_def
        by (metis append_eq_append_conv_if append_take_drop_id less_imp_le_nat)
      with len have v: "v \<noteq> []" by auto
      from z Hu have "u @ H @ Replace rest T H = u @ v @ z" by simp
      then have "H @ Replace rest T H = v @ z" by simp
      moreover have "length v \<le> length H" by (simp add: v_def)
      ultimately have "prefix v H"
        by (metis append_eq_append_conv_if prefix_def take_is_prefix)
      with H(1) Hu u v show False unfolding unbordered_def by blast
    qed
  qed
qed

lemma Replace_roundtrip:
  assumes H: "unbordered H" "H \<noteq> []" and T: "T \<noteq> []"
  shows "\<not> Contains s H \<Longrightarrow> Replace (Replace s T H) H T = s"
proof (induction s rule: length_induct)
  case (1 s)
  show ?case
  proof (cases s)
    case Nil
    with H T show ?thesis by simp
  next
    case (Cons x xs)
    show ?thesis
    proof (cases "prefix T s")
      case True
      then obtain rest where r: "s = T @ rest" by (auto simp: prefix_def)
      with T have "length rest < length s" by simp
      moreover from 1(2) r have "\<not> Contains rest H"
        by (metis Contains_sublist sublist_append_leftI sublist_order.order.trans sublist_order.order.refl sublist_appendI)
      ultimately have "Replace (Replace rest T H) H T = rest" using 1(1) by blast
      then show ?thesis unfolding r using H T by (simp add: Replace_prefix)
    next
      case False
      from 1(2) Cons have nc: "\<not> Contains xs H" by simp
      have "length xs < length s" using Cons by simp
      with nc have IH: "Replace (Replace xs T H) H T = xs" using 1(1) by blast
      from False Cons T have R: "Replace s T H = x # Replace xs T H" by simp
      from no_early_match[OF H T False 1(2)] R
      have "\<not> prefix H (x # Replace xs T H)" by simp
      with H(2) have "Replace (x # Replace xs T H) H T = x # Replace (Replace xs T H) H T"
        by simp
      with R IH Cons show ?thesis by simp
    qed
  qed
qed

lemma suffix_skip:
  assumes "suffix v (a @ b)" "v \<noteq> []" "hd v \<notin> set a"
  shows "suffix v b"
proof -
  from assms(1) consider "suffix v b" | w where "suffix w a" "v = w @ b"
    by (auto simp: suffix_append)
  then show ?thesis
  proof cases
    case 1 then show ?thesis .
  next
    case 2
    show ?thesis
    proof (cases w)
      case Nil
      with 2 show ?thesis by simp
    next
      case (Cons y ys)
      with 2 have "hd v = y" "y \<in> set a" by (auto dest: set_mono_suffix)
      with assms(3) show ?thesis by simp
    qed
  qed
qed

lemma unbordered_SearchHighlightFmt:
  assumes "\<not> Contains T ''[blue:gray]''"
  shows "unbordered (SearchHighlightFmt T)"
  unfolding unbordered_def
proof (intro allI impI)
  fix u v
  assume H: "SearchHighlightFmt T = u @ v" and u: "u \<noteq> []" and v: "v \<noteq> []"
  show "\<not> prefix v (SearchHighlightFmt T)"
  proof
    assume p: "prefix v (SearchHighlightFmt T)"
    with v have hd: "hd v = CHR ''[''"
      by (cases v) (auto simp: SearchHighlightFmt_def)
    from H u have "tl (SearchHighlightFmt T) = tl u @ v" by (cases u) auto
    then have "suffix v (''blue:gray]'' @ T @ ''[-:-]'')"
      by (simp add: SearchHighlightFmt_def suffix_def)
    then have "suffix v (T @ ''[-:-]'')"
      by (rule suffix_skip) (use v hd in simp_all)
    then consider "suffix v ''[-:-]''" | w where "suffix w T" "v = w @ ''[-:-]''"
      by (auto simp: suffix_append)
    then show False
    proof cases
      case 1
      with v hd have "v = ''[-:-]''" by (auto simp: suffix_Cons)
      with p show False by (simp add: SearchHighlightFmt_def)
    next
      case 2
      from p 2(2) have "prefix (w @ ''[-:-]'') (''[blue:gray]'' @ T @ ''[-:-]'')"
        by (simp add: SearchHighlightFmt_def)
      moreover have "prefix ''[blue:gray]'' (''[blue:gray]'' @ T @ ''[-:-]'')" by simp
      ultimately consider "prefix (w @ ''[-:-]'') ''[blue:gray]''"
        | "prefix ''[blue:gray]'' (w @ ''[-:-]'')"
        using prefix_same_cases by blast
      then show False
      proof cases
        case 1
        then have "set (w @ ''[-:-]'') \<subseteq> set ''[blue:gray]''" by (rule set_mono_prefix)
        then have "CHR ''-'' \<in> set ''[blue:gray]''" by auto
        then show False by simp
      next
        case 2
        then consider "prefix ''[blue:gray]'' w"
          | us where "''[blue:gray]'' = w @ us" "prefix us ''[-:-]''"
          by (auto simp: prefix_append)
        then show False
        proof cases
          case 1
          with \<open>suffix w T\<close> have "sublist ''[blue:gray]'' T"
            by (meson prefix_imp_sublist suffix_imp_sublist sublist_order.order.trans)
          with assms show False by (simp add: Contains_sublist)
        next
          case 2
          show False
          proof (cases w)
            case Nil
            with 2 have "prefix ''[blue:gray]'' ''[-:-]''" by simp
            then show False by simp
          next
            case (Cons y ys)
            with 2(1) have ys: "''blue:gray]'' = ys @ us" by simp
            show False
            proof (cases us)
              case Nil
              with 2(1) have "prefix ''[blue:gray]'' w" by simp
              with \<open>suffix w T\<close> have "sublist ''[blue:gray]'' T"
                by (meson prefix_imp_sublist suffix_imp_sublist sublist_order.order.trans)
              with assms show False by (simp add: Contains_sublist)
            next
              case (Cons z zs)
              with 2(2) have "z = CHR ''[''" by simp
              with Cons have "CHR ''['' \<in> set (ys @ us)" by simp
              then have "CHR ''['' \<in> set ''blue:gray]''" by (simp only: ys)
              then show False by simp
            qed
          qed
        qed
      qed
    qed
  qed
qed

lemma SearchHighlightFmt_nonempty: "SearchHighlightFmt T \<noteq> []"
  by (simp add: SearchHighlightFmt_def)

lemma clear_old_after_highlight:
  assumes "T \<noteq> []" "\<not> Contains T ''[blue:gray]''" "\<not> Contains c (SearchHighlightFmt T)"
  shows "clear_old T (Replace c T (SearchHighlightFmt T)) = c"
proof (cases "Contains c T")
  case True
  with assms(1) have "Contains (Replace c T (SearchHighlightFmt T)) (SearchHighlightFmt T)"
    by (rule Contains_Replace_new)
  with assms(1) have "clear_old T (Replace c T (SearchHighlightFmt T))
      = Replace (Replace c T (SearchHighlightFmt T)) (SearchHighlightFmt T) T"
    by (simp add: clear_old_def)
  also have "\<dots> = c"
    using unbordered_SearchHighlightFmt[OF assms(2)] SearchHighlightFmt_nonempty assms(1,3)
    by (rule Replace_roundtrip)
  finally show ?thesis .
next
  case False
  have "Replace c T (SearchHighlightFmt T) = c"
    using Replace_first_occurrence[OF assms(1), of c "SearchHighlightFmt T"] False
    by (auto simp: Contains_sublist sublist_def)
  with assms(3) show ?thesis by (simp add: clear_old_def)
qed

section \<open>The rescan, line by line\<close>

lemma rescan_loop_acc:
  "rescan_loop s p ls acc = acc @ joinLines (map (updated_line s p) (filter (\<lambda>l. l \<noteq> []) ls))"
  by (induction ls arbitrary: acc) (simp_all add: Let_def updated_line_def joinLines_def)

lemma rescan_Split:
  "rescan s p text = joinLines (map (updated_line s p) (filter (\<lambda>l. l \<noteq> []) (Split text newline)))"
  by (simp add: rescan_def rescan_loop_acc)

lemma Split_joinLines_newline:
  "\<forall>l\<in>set ls. newline \<notin> set l \<Longrightarrow> Split (joinLines ls) newline = ls @ [[]]"
  unfolding joinLines_def by (rule Split_joinLines)

lemma rescan_joinLines:
  assumes "\<forall>l\<in>set ls. newline \<notin> set l"
  shows "rescan s p (joinLines ls) = joinLines (map (updated_line s p) (filter (\<lambda>l. l \<noteq> []) ls))"
  by (simp add: rescan_Split Split_joinLines_newline[OF assms])

lemma updated_line_short:
  "length (SplitN line space 3) < 3 \<Longrightarrow> updated_line s p line = line"
  by (simp add: updated_line_def)

lemma updated_line_fields:
  "SplitN line space 3 = [f0, f1, c] \<Longrightarrow>
     updated_line s p line = f0 @ space # f1 @ space # updatedContent s p c"
  by (simp add: updated_line_def)

lemma set_Replace: "set (Replace s old new) \<subseteq> set s \<union> set new"
proof (induction s old new rule: Replace.induct)
  case (1 old new)
  then show ?case by auto
next
  case (2 c cs old new)
  have "set (drop (length old) (c # cs)) \<subseteq> set (c # cs)" by (rule set_drop_subset)
  with 2 show ?case by (auto split: if_splits)
qed

lemma Contains_set: "Contains s sub \<Longrightarrow> set sub \<subseteq> set s"
  by (simp add: Contains_sublist set_mono_sublist)

lemma set_SearchHighlightFmt: "set (SearchHighlightFmt s) = set ''[blue:gray]'' \<union> set s \<union> set ''[-:-]''"
  by (auto simp: SearchHighlightFmt_def)

lemma newline_clear_old: "newline \<notin> set c \<Longrightarrow> newline \<notin> set (clear_old p c)"
proof (cases "p \<noteq> [] \<and> Contains c (SearchHighlightFmt p)")
  case True
  assume c: "newline \<notin> set c"
  from True have "set (SearchHighlightFmt p) \<subseteq> set c" by (simp add: Contains_set)
  then have "set p \<subseteq> set c" by (auto simp: set_SearchHighlightFmt)
  with c set_Replace[of c "SearchHighlightFmt p" p] True show ?thesis
    by (auto simp: clear_old_def)
next
  case False
  assume "newline \<notin> set c"
  with False show ?thesis by (auto simp: clear_old_def)
qed

lemma newline_highlight_new: "newline \<notin> set c \<Longrightarrow> newline \<notin> set (highlight_new s c)"
proof (cases "s \<noteq> [] \<and> \<not> Contains c (SearchHighlightFmt s) \<and> Contains c s")
  case True
  assume c: "newline \<notin> set c"
  from True have "set s \<subseteq> set c" by (simp add: Contains_set)
  with c have "newline \<notin> set (SearchHighlightFmt s)" by (auto simp: set_SearchHighlightFmt)
  with c set_Replace[of c s "SearchHighlightFmt s"] True show ?thesis
    by (auto simp: highlight_new_def)
next
  case False
  assume "newline \<notin> set c"
  with False show ?thesis by (auto simp: highlight_new_def)
qed

lemma newline_updatedContent: "newline \<notin> set c \<Longrightarrow> newline \<notin> set (updatedContent s p c)"
  by (simp add: updatedContent_def newline_clear_old newline_highlight_new)

lemma updated_line_cases:
  obtains (short) "length (SplitN line space 3) < 3" "updated_line s p line = line"
  | (fields) f0 f1 c where "SplitN line space 3 = [f0, f1, c]"
      "line = f0 @ space # f1 @ space # c" "space \<notin> set f0" "space \<notin> set f1"
      "updated_line s p line = f0 @ space # f1 @ space # updatedContent s p c"
      "SplitN (updated_line s p line) space 3 = [f0, f1, updatedContent s p c]"
proof -
  from SplitN3_cases[of line space]
  consider "length (SplitN line space 3) < 3"
    | f0 f1 c where "SplitN line space 3 = [f0, f1, c]"
      "line = f0 @ space # f1 @ space # c" "space \<notin> set f0" "space \<notin> set f1"
    by fastforce
  then show ?thesis
  proof cases
    case 1
    then show ?thesis using short updated_line_short by blast
  next
    case 2
    from 2(1) have u: "updated_line s p line = f0 @ space # f1 @ space # updatedContent s p c"
      by (rule updated_line_fields)
    have "SplitN (f0 @ space # f1 @ space # updatedContent s p c) space 3
        = [f0, f1, updatedContent s p c]"
      using 2(3,4) by (rule SplitN3_fields)
    with u 2 show ?thesis using fields by simp
  qed
qed

lemma updated_line_newline:
  assumes "newline \<notin> set line"
  shows "newline \<notin> set (updated_line s p line)"
proof (cases s p line rule: updated_line_cases)
  case short
  with assms show ?thesis by simp
next
  case (fields f0 f1 c)
  from assms fields(2) have "newline \<notin> set f0" "newline \<notin> set f1" "newline \<notin> set c"
    by auto
  with fields(5) newline_updatedContent[of c s p] show ?thesis by simp
qed

lemma updated_line_nonempty: "line \<noteq> [] \<Longrightarrow> updated_line s p line \<noteq> []"
  by (cases s p line rule: updated_line_cases) auto

lemma sublist_joinLines: "l \<in> set ls \<Longrightarrow> sublist l (joinLines ls)"
proof -
  assume "l \<in> set ls"
  then obtain as bs where "ls = as @ l # bs" by (auto dest: split_list)
  then have "joinLines ls = joinLines as @ l @ (newline # joinLines bs)"
    by (simp add: joinLines_def)
  then show ?thesis unfolding sublist_def by blast
qed

lemma updated_line_idem:
  assumes "p = [] \<or> \<not> sublist (SearchHighlightFmt p) (updated_line s p line)"
  shows "updated_line s p (updated_line s p line) = updated_line s p line"
proof (cases s p line rule: updated_line_cases)
  case short
  then show ?thesis by simp
next
  case (fields f0 f1 c)
  have "sublist (updatedContent s p c) (updated_line s p line)"
    unfolding fields(5) sublist_def
    by (rule exI[of _ "f0 @ space # f1 @ [space]"], rule exI[of _ "[]"]) simp
  with assms have "p = [] \<or> \<not> Contains (updatedContent s p c) (SearchHighlightFmt p)"
    using sublist_order.order.trans by (auto simp: Contains_sublist)
  then have "updatedContent s p (updatedContent s p c) = updatedContent s p c"
    by (rule updatedContent_idem)
  with updated_line_fields[OF fields(6), of s p] fields(5) show ?thesis by simp
qed

lemma rescan_idem:
  assumes "p = [] \<or> \<not> Contains (rescan s p text) (SearchHighlightFmt p)"
  shows "rescan s p (rescan s p text) = rescan s p text"
proof -
  define L where "L = filter (\<lambda>l. l \<noteq> []) (Split text newline)"
  define out where "out = map (updated_line s p) L"
  have r: "rescan s p text = joinLines out"
    by (simp add: rescan_Split L_def out_def)
  have L: "\<forall>l\<in>set L. l \<noteq> [] \<and> newline \<notin> set l"
    by (auto simp: L_def dest: Split_fields_no_sep)
  then have out: "\<forall>l\<in>set out. l \<noteq> [] \<and> newline \<notin> set l"
    by (auto simp: out_def updated_line_nonempty updated_line_newline)
  then have ne: "filter (\<lambda>l. l \<noteq> []) out = out" by (simp add: filter_id_conv)
  from out have "rescan s p (joinLines out) = joinLines (map (updated_line s p) (filter (\<lambda>l. l \<noteq> []) out))"
    by (simp add: rescan_joinLines)
  also have "\<dots> = joinLines (map (updated_line s p) out)" by (simp only: ne)
  also have "map (updated_line s p) out = out"
  proof (rule map_idI)
    fix l assume l: "l \<in> set out"
    then obtain l0 where l0: "l = updated_line s p l0" by (auto simp: out_def)
    have "p = [] \<or> \<not> sublist (SearchHighlightFmt p) l"
    proof (rule disjCI)
      assume "\<not> \<not> sublist (SearchHighlightFmt p) l"
      then have "sublist (SearchHighlightFmt p) (joinLines out)"
        using sublist_joinLines[OF l] sublist_order.order.trans by blast
      with assms r show "p = []" by (simp add: Contains_sublist)
    qed
    then show "updated_line s p l = l" unfolding l0 by (rule updated_line_idem)
  qed
  finally show ?thesis by (simp add: r)
qed

lemma Replace_absent: "old \<noteq> [] \<Longrightarrow> \<not> Contains s old \<Longrightarrow> Replace s old new = s"
  using Replace_first_occurrence[of old s new]
  by (auto simp: Contains_sublist sublist_def)

lemma set_search_highlight_idem:
  assumes "rescan s p (rescan s p text) = rescan s p text"
  shows "set_search_highlight s p (set_search_highlight s p text) = set_search_highlight s p text"
  using assms by (simp add: set_search_highlight_def)

section \<open>Highlighting a term and clearing it again\<close>

lemma highlight_new_fresh:
  assumes "T \<noteq> []" "\<not> Contains c (SearchHighlightFmt T)"
  shows "highlight_new T c = Replace c T (SearchHighlightFmt T)"
    and "highlight_incoming T c = Replace c T (SearchHighlightFmt T)"
  using assms Replace_absent[of T c "SearchHighlightFmt T"]
  by (auto simp: highlight_new_def highlight_incoming_def)

lemma highlight_new_skip:
  "S = [] \<or> \<not> Contains c S \<or> Contains c (SearchHighlightFmt S) \<Longrightarrow> highlight_new S c = c"
  by (auto simp: highlight_new_def)

lemma updatedContent_restores:
  assumes "T \<noteq> []" "\<not> Contains T ''[blue:gray]''" "\<not> Contains c (SearchHighlightFmt T)"
    and "S = [] \<or> \<not> Contains c S \<or> Contains c (SearchHighlightFmt S)"
  shows "updatedContent S T (Replace c T (SearchHighlightFmt T)) = c"
  using clear_old_after_highlight[OF assms(1-3)] highlight_new_skip[OF assms(4)]
  by (simp add: updatedContent_def)

lemma rescan_single_line:
  assumes "space \<notin> set f0" "space \<notin> set f1" "newline \<notin> set (f0 @ f1 @ c)"
  shows "rescan S T (joinLines [f0 @ space # f1 @ space # c])
       = joinLines [f0 @ space # f1 @ space # updatedContent S T c]"
proof -
  have "\<forall>l\<in>set [f0 @ space # f1 @ space # c]. newline \<notin> set l"
    using assms(3) by simp
  then have "rescan S T (joinLines [f0 @ space # f1 @ space # c])
      = joinLines (map (updated_line S T) (filter (\<lambda>l. l \<noteq> []) [f0 @ space # f1 @ space # c]))"
    by (rule rescan_joinLines)
  moreover have "updated_line S T (f0 @ space # f1 @ space # c)
      = f0 @ space # f1 @ space # updatedContent S T c"
    using SplitN3_fields[OF assms(1,2), of c] by (rule updated_line_fields)
  ultimately show ?thesis by simp
qed

text \<open>
  C3, as amended. Take a term \<open>T\<close> that is not empty and does not contain the opening
  marker \<open>[blue:gray]\<close>, and a content field without a highlighted \<open>T\<close>. After the
  search highlight for \<open>T\<close> has been applied (by the rescan or when the line arrived), a
  rescan with previous search \<open>T\<close> gives back the content byte for byte, provided the new
  search \<open>S\<close> is empty, or does not occur in the content, or is already highlighted
  there.
\<close>

theorem highlight_roundtrip:
  assumes "T \<noteq> []" and "\<not> Contains T ''[blue:gray]''"
    and "\<not> Contains content (SearchHighlightFmt T)"
    and "S = [] \<or> \<not> Contains content S \<or> Contains content (SearchHighlightFmt S)"
    and "space \<notin> set ordinal" and "space \<notin> set timestamp"
    and "newline \<notin> set (ordinal @ timestamp @ content)"
  shows "updatedContent S T (highlight_new T content) = content
       \<and> updatedContent S T (highlight_incoming T content) = content
       \<and> rescan S T (joinLines [ordinal @ space # timestamp @ space # highlight_new T content])
           = joinLines [ordinal @ space # timestamp @ space # content]
       \<and> rescan S T (joinLines [ordinal @ space # timestamp @ space # highlight_incoming T content])
           = joinLines [ordinal @ space # timestamp @ space # content]"
proof -
  let ?w = "Replace content T (SearchHighlightFmt T)"
  have w: "highlight_new T content = ?w" "highlight_incoming T content = ?w"
    using assms(1,3) by (rule highlight_new_fresh)+
  have u: "updatedContent S T ?w = content"
    using assms(1-4) by (rule updatedContent_restores)
  from assms(7) have "newline \<notin> set content" by simp
  then have "newline \<notin> set (highlight_new T content)" by (rule newline_highlight_new)
  with assms(7) w have "newline \<notin> set (ordinal @ timestamp @ ?w)" by simp
  with assms(5,6)
  have "rescan S T (joinLines [ordinal @ space # timestamp @ space # ?w])
      = joinLines [ordinal @ space # timestamp @ space # updatedContent S T ?w]"
    by (rule rescan_single_line)
  with w u show ?thesis by simp
qed

theorem highlight_roundtrip_witness:
  "updatedContent ''12'' ''line'' (highlight_new ''line'' ''a: line 1'') = ''a: line 1''
   \<and> highlight_incoming ''line'' ''a: line 1'' = ''a: [blue:gray]line[-:-] 1''
   \<and> rescan ''12'' ''line''
        (joinLines [''1: [gray:black]12:00:00[-:-] '' @ highlight_incoming ''line'' ''a: line 1''])
       = joinLines [''1: [gray:black]12:00:00[-:-] a: line 1'']"
proof -
  have h: "''line'' \<noteq> []" "\<not> Contains ''line'' ''[blue:gray]''"
    "\<not> Contains ''a: line 1'' (SearchHighlightFmt ''line'')"
    "''12'' = [] \<or> \<not> Contains ''a: line 1'' ''12''
       \<or> Contains ''a: line 1'' (SearchHighlightFmt ''12'')"
    "space \<notin> set ''1:''" "space \<notin> set ''[gray:black]12:00:00[-:-]''"
    "newline \<notin> set (''1:'' @ ''[gray:black]12:00:00[-:-]'' @ ''a: line 1'')"
    by code_simp+
  have v: "highlight_incoming ''line'' ''a: line 1'' = ''a: [blue:gray]line[-:-] 1''"
    by code_simp
  from highlight_roundtrip[OF h] v show ?thesis by simp
qed

text \<open>
  C3 as stated fails for a different new search that occurs in the content: the rescan
  clears the old highlight and then wraps the new term, so the content is not the
  original one.
\<close>

theorem highlight_roundtrip_counterexample:
  "Contains ''a: line 1'' ''line'' \<and> \<not> Contains ''a: line 1'' (SearchHighlightFmt ''line'')
   \<and> ''a'' \<noteq> ''line''
   \<and> highlight_incoming ''line'' ''a: line 1'' = ''a: [blue:gray]line[-:-] 1''
   \<and> rescan ''a'' ''line''
        (joinLines [''1: [gray:black]12:00:00[-:-] '' @ highlight_incoming ''line'' ''a: line 1''])
       = joinLines [''1: [gray:black]12:00:00[-:-] [blue:gray]a[-:-]: line 1'']
   \<and> rescan ''a'' ''line''
        (joinLines [''1: [gray:black]12:00:00[-:-] '' @ highlight_incoming ''line'' ''a: line 1''])
       \<noteq> joinLines [''1: [gray:black]12:00:00[-:-] a: line 1'']"
  by code_simp

text \<open>
  Why the term must not contain the opening marker: with \<open>T = "[-:-][blue:gray]"\<close> the highlighted
  text is three markers long and the first match found when clearing is not the one
  that was inserted.
\<close>

lemma highlight_roundtrip_bracket_term:
  "Contains ''[blue:gray][-:-][-:-][blue:gray]'' ''[-:-][blue:gray]''
   \<and> \<not> Contains ''[blue:gray][-:-][-:-][blue:gray]'' (SearchHighlightFmt ''[-:-][blue:gray]'')
   \<and> updatedContent [] ''[-:-][blue:gray]''
        (highlight_new ''[-:-][blue:gray]'' ''[blue:gray][-:-][-:-][blue:gray]'')
       = ''[-:-][blue:gray][blue:gray][-:-]''"
  by code_simp

section \<open>Idempotence of the rescan\<close>

lemma rescan_idem_lines:
  assumes "\<And>l. l \<in> set (Split text newline) \<Longrightarrow> l \<noteq> [] \<Longrightarrow>
             updated_line s p (updated_line s p l) = updated_line s p l"
  shows "rescan s p (rescan s p text) = rescan s p text"
proof -
  define L where "L = filter (\<lambda>l. l \<noteq> []) (Split text newline)"
  define out where "out = map (updated_line s p) L"
  have r: "rescan s p text = joinLines out"
    by (simp add: rescan_Split L_def out_def)
  have L: "\<forall>l\<in>set L. l \<noteq> [] \<and> newline \<notin> set l"
    by (auto simp: L_def dest: Split_fields_no_sep)
  then have out: "\<forall>l\<in>set out. l \<noteq> [] \<and> newline \<notin> set l"
    by (auto simp: out_def updated_line_nonempty updated_line_newline)
  then have ne: "filter (\<lambda>l. l \<noteq> []) out = out" by (simp add: filter_id_conv)
  from out have "rescan s p (joinLines out)
      = joinLines (map (updated_line s p) (filter (\<lambda>l. l \<noteq> []) out))"
    by (simp add: rescan_joinLines)
  also have "\<dots> = joinLines (map (updated_line s p) out)" by (simp only: ne)
  also have "map (updated_line s p) out = out"
  proof (rule map_idI)
    fix l assume "l \<in> set out"
    then obtain l0 where "l0 \<in> set L" "l = updated_line s p l0" by (auto simp: out_def)
    then show "updated_line s p l = l" using assms by (simp add: L_def)
  qed
  finally show ?thesis by (simp add: r)
qed

lemma updatedContent_same_idem:
  assumes "T \<noteq> []" "\<not> Contains T ''[blue:gray]''"
    and "\<not> Contains (clear_old T c) (SearchHighlightFmt T)"
  shows "updatedContent T T (updatedContent T T c) = updatedContent T T c"
proof -
  let ?c1 = "clear_old T c"
  have w: "highlight_new T ?c1 = Replace ?c1 T (SearchHighlightFmt T)"
    using assms(1,3) by (rule highlight_new_fresh)
  have "clear_old T (Replace ?c1 T (SearchHighlightFmt T)) = ?c1"
    using assms by (rule clear_old_after_highlight)
  with w show ?thesis by (simp add: updatedContent_def)
qed

lemma highlight_new_empty: "highlight_new [] c = c"
  by (simp add: highlight_new_def)

lemma updated_line_same_idem:
  assumes "T \<noteq> []" "\<not> Contains T ''[blue:gray]''"
    and "\<not> sublist (SearchHighlightFmt T) (updated_line [] T line)"
  shows "updated_line T T (updated_line T T line) = updated_line T T line"
proof (cases T T line rule: updated_line_cases)
  case short
  then show ?thesis by simp
next
  case (fields f0 f1 c)
  have "updated_line [] T line = f0 @ space # f1 @ space # clear_old T c"
    using updated_line_fields[OF fields(1), of "[]" T]
    by (simp add: updatedContent_def highlight_new_empty)
  then have "sublist (clear_old T c) (updated_line [] T line)"
    unfolding sublist_def
    by (intro exI[of _ "f0 @ space # f1 @ [space]"] exI[of _ "[]"]) simp
  with assms(3) have "\<not> Contains (clear_old T c) (SearchHighlightFmt T)"
    using sublist_order.order.trans by (auto simp: Contains_sublist)
  with assms(1,2) have "updatedContent T T (updatedContent T T c) = updatedContent T T c"
    by (rule updatedContent_same_idem)
  with updated_line_fields[OF fields(6), of T T] fields(5) show ?thesis by simp
qed

lemma rescan_idem_same:
  assumes "T \<noteq> []" "\<not> Contains T ''[blue:gray]''"
    and "\<not> Contains (rescan [] T text) (SearchHighlightFmt T)"
  shows "rescan T T (rescan T T text) = rescan T T text"
proof (rule rescan_idem_lines)
  fix l assume l: "l \<in> set (Split text newline)" "l \<noteq> []"
  then have "updated_line [] T l \<in> set (map (updated_line [] T)
      (filter (\<lambda>l. l \<noteq> []) (Split text newline)))"
    by simp
  then have "sublist (updated_line [] T l) (rescan [] T text)"
    unfolding rescan_Split by (rule sublist_joinLines)
  with assms(3) have "\<not> sublist (SearchHighlightFmt T) (updated_line [] T l)"
    using sublist_order.order.trans by (auto simp: Contains_sublist)
  with assms(1,2) show "updated_line T T (updated_line T T l) = updated_line T T l"
    by (rule updated_line_same_idem)
qed

text \<open>
  C2, as amended. Running the rescan a second time with the same search and previous
  search changes nothing in each of these cases: the previous search is empty; the text
  produced by the first run holds no highlighted occurrence of the previous search; the
  search equals the previous search (what the search form gives on Cancel, or on OK
  without an edit), the term does not contain the opening marker \<open>[blue:gray]\<close>, and
  clearing its highlight once leaves none in the text, that is, no highlight of it is
  nested. The same holds for the guarded block of \<open>peek\<close>, which skips the rescan when
  both terms are empty.
\<close>

theorem rescan_idempotent:
  assumes "prev = []
     \<or> \<not> Contains (rescan search prev text) (SearchHighlightFmt prev)
     \<or> (search = prev \<and> \<not> Contains prev ''[blue:gray]''
          \<and> \<not> Contains (rescan [] prev text) (SearchHighlightFmt prev))"
  shows "rescan search prev (rescan search prev text) = rescan search prev text
       \<and> set_search_highlight search prev (set_search_highlight search prev text)
           = set_search_highlight search prev text"
proof -
  have "rescan search prev (rescan search prev text) = rescan search prev text"
  proof (cases "prev = [] \<or> \<not> Contains (rescan search prev text) (SearchHighlightFmt prev)")
    case True
    then show ?thesis by (rule rescan_idem)
  next
    case False
    with assms have "prev \<noteq> []" "search = prev" "\<not> Contains prev ''[blue:gray]''"
      "\<not> Contains (rescan [] prev text) (SearchHighlightFmt prev)"
      by auto
    then show ?thesis using rescan_idem_same[of prev "text"] by simp
  qed
  then show ?thesis using set_search_highlight_idem by blast
qed

theorem rescan_idempotent_witness:
  "rescan ''1'' ''line'' (rescan ''1'' ''line''
        (joinLines [''7: [gray:black]12:00:00[-:-] a: [blue:gray]line[-:-] 1'']))
       = joinLines [''7: [gray:black]12:00:00[-:-] a: line [blue:gray]1[-:-]'']
   \<and> rescan ''line'' ''line'' (rescan ''line'' ''line''
        (joinLines [''7: [gray:black]12:00:00[-:-] a: [blue:gray]line[-:-] 1'',
                    ''8: [gray:black]12:00:01[-:-] a: line 2'']))
       = joinLines [''7: [gray:black]12:00:00[-:-] a: [blue:gray]line[-:-] 1'',
                    ''8: [gray:black]12:00:01[-:-] a: [blue:gray]line[-:-] 2'']"
proof -
  let ?t1 = "joinLines [''7: [gray:black]12:00:00[-:-] a: [blue:gray]line[-:-] 1'']"
  let ?t2 = "joinLines [''7: [gray:black]12:00:00[-:-] a: [blue:gray]line[-:-] 1'',
                    ''8: [gray:black]12:00:01[-:-] a: line 2'']"
  have h1: "''line'' = []
     \<or> \<not> Contains (rescan ''1'' ''line'' ?t1) (SearchHighlightFmt ''line'')
     \<or> (''1'' = ''line'' \<and> \<not> Contains ''line'' ''[blue:gray]''
          \<and> \<not> Contains (rescan [] ''line'' ?t1) (SearchHighlightFmt ''line''))"
    by code_simp
  have v1: "rescan ''1'' ''line'' ?t1
       = joinLines [''7: [gray:black]12:00:00[-:-] a: line [blue:gray]1[-:-]'']"
    by code_simp
  have n2: "Contains (rescan ''line'' ''line'' ?t2) (SearchHighlightFmt ''line'')"
    by code_simp
  have h2: "''line'' = []
     \<or> \<not> Contains (rescan ''line'' ''line'' ?t2) (SearchHighlightFmt ''line'')
     \<or> (''line'' = ''line'' \<and> \<not> Contains ''line'' ''[blue:gray]''
          \<and> \<not> Contains (rescan [] ''line'' ?t2) (SearchHighlightFmt ''line''))"
    by code_simp
  have v2: "rescan ''line'' ''line'' ?t2
       = joinLines [''7: [gray:black]12:00:00[-:-] a: [blue:gray]line[-:-] 1'',
                    ''8: [gray:black]12:00:01[-:-] a: [blue:gray]line[-:-] 2'']"
    by code_simp
  from rescan_idempotent[OF h1] v1 rescan_idempotent[OF h2] v2 show ?thesis by simp
qed

text \<open>
  C2 as stated fails: where the highlight of the previous search is nested in the
  text, the first run removes the outer marker and the second run the inner one.
\<close>

theorem rescan_twice_counterexample:
  "rescan [] ''a'' (joinLines [''7: [gray:black]12:00:00[-:-] [blue:gray][blue:gray]a[-:-][-:-]''])
     = joinLines [''7: [gray:black]12:00:00[-:-] [blue:gray]a[-:-]'']
   \<and> rescan [] ''a'' (rescan [] ''a''
         (joinLines [''7: [gray:black]12:00:00[-:-] [blue:gray][blue:gray]a[-:-][-:-]'']))
     = joinLines [''7: [gray:black]12:00:00[-:-] a'']
   \<and> rescan [] ''a'' (rescan [] ''a''
         (joinLines [''7: [gray:black]12:00:00[-:-] [blue:gray][blue:gray]a[-:-][-:-]'']))
     \<noteq> rescan [] ''a''
         (joinLines [''7: [gray:black]12:00:00[-:-] [blue:gray][blue:gray]a[-:-][-:-]''])"
  by code_simp

text \<open>
  Why, for a search equal to the previous search, the term must not contain the opening
  marker: with the term \<open>"[-:-][blue:gray]"\<close> the first run highlights three occurrences
  in a row, the second run clears at another offset and the text differs, although no
  highlight was nested.
\<close>

lemma rescan_same_term_marker:
  "\<not> Contains (clear_old ''[-:-][blue:gray]'' ''[blue:gray][-:-][-:-][blue:gray][blue:gray]'')
       (SearchHighlightFmt ''[-:-][blue:gray]'')
   \<and> updatedContent ''[-:-][blue:gray]'' ''[-:-][blue:gray]''
        (updatedContent ''[-:-][blue:gray]'' ''[-:-][blue:gray]''
           ''[blue:gray][-:-][-:-][blue:gray][blue:gray]'')
     \<noteq> updatedContent ''[-:-][blue:gray]'' ''[-:-][blue:gray]''
           ''[blue:gray][-:-][-:-][blue:gray][blue:gray]''"
  by code_simp

section \<open>What the rescan leaves alone\<close>

lemma Split_rescan_joinLines:
  assumes "\<forall>l\<in>set ls. l \<noteq> [] \<and> newline \<notin> set l"
  shows "Split (rescan s p (joinLines ls)) newline = map (updated_line s p) ls @ [[]]"
proof -
  from assms have "filter (\<lambda>l. l \<noteq> []) ls = ls" by (simp add: filter_id_conv)
  moreover from assms have "\<forall>l\<in>set ls. newline \<notin> set l" by simp
  ultimately have "rescan s p (joinLines ls) = joinLines (map (updated_line s p) ls)"
    by (simp add: rescan_joinLines)
  moreover from assms have "\<forall>l\<in>set (map (updated_line s p) ls). newline \<notin> set l"
    by (simp add: updated_line_newline)
  ultimately show ?thesis by (simp add: Split_joinLines_newline)
qed

text \<open>
  C6, as amended. For a text view made of non-empty lines, the rescan gives one line
  for each line; a line with fewer than three space-separated fields comes out
  unchanged, and a line with three fields keeps its first two fields, the third being
  the updated content. Banner lines get no other treatment.
\<close>

theorem rescan_frame:
  assumes "\<forall>l\<in>set ls. l \<noteq> [] \<and> newline \<notin> set l" and "i < length ls"
  shows "length (Split (rescan search prev (joinLines ls)) newline) = Suc (length ls)
       \<and> (length (SplitN (ls ! i) space 3) < 3 \<longrightarrow>
            Split (rescan search prev (joinLines ls)) newline ! i = ls ! i)
       \<and> (length (SplitN (ls ! i) space 3) = 3 \<longrightarrow>
            SplitN (Split (rescan search prev (joinLines ls)) newline ! i) space 3
              = [SplitN (ls ! i) space 3 ! 0, SplitN (ls ! i) space 3 ! 1,
                 updatedContent search prev (SplitN (ls ! i) space 3 ! 2)])"
proof -
  have S: "Split (rescan search prev (joinLines ls)) newline
      = map (updated_line search prev) ls @ [[]]"
    using assms(1) by (rule Split_rescan_joinLines)
  with assms(2) have nth: "Split (rescan search prev (joinLines ls)) newline ! i
      = updated_line search prev (ls ! i)"
    by (simp add: nth_append)
  have "length (Split (rescan search prev (joinLines ls)) newline) = Suc (length ls)"
    by (simp add: S)
  moreover have "length (SplitN (ls ! i) space 3) < 3 \<longrightarrow>
      Split (rescan search prev (joinLines ls)) newline ! i = ls ! i"
    by (simp add: nth updated_line_short)
  moreover have "length (SplitN (ls ! i) space 3) = 3 \<longrightarrow>
      SplitN (Split (rescan search prev (joinLines ls)) newline ! i) space 3
        = [SplitN (ls ! i) space 3 ! 0, SplitN (ls ! i) space 3 ! 1,
           updatedContent search prev (SplitN (ls ! i) space 3 ! 2)]"
  proof
    assume three: "length (SplitN (ls ! i) space 3) = 3"
    show "SplitN (Split (rescan search prev (joinLines ls)) newline ! i) space 3
        = [SplitN (ls ! i) space 3 ! 0, SplitN (ls ! i) space 3 ! 1,
           updatedContent search prev (SplitN (ls ! i) space 3 ! 2)]"
    proof (cases search prev "ls ! i" rule: updated_line_cases)
      case short
      with three show ?thesis by simp
    next
      case (fields f0 f1 c)
      then show ?thesis by (simp add: nth)
    qed
  qed
  ultimately show ?thesis by blast
qed

theorem rescan_frame_witness:
  "Split (rescan ''12'' [] (joinLines [''hello'', ''1: [gray:black]12:00:00[-:-] a: line 12'']))
        newline ! 0 = ''hello''
   \<and> SplitN (Split (rescan ''12'' []
        (joinLines [''hello'', ''1: [gray:black]12:00:00[-:-] a: line 12''])) newline ! 1) space 3
       = [''1:'', ''[gray:black]12:00:00[-:-]'', ''a: line [blue:gray]12[-:-]'']"
proof -
  let ?ls = "[''hello'', ''1: [gray:black]12:00:00[-:-] a: line 12'']"
  have h: "\<forall>l\<in>set ?ls. l \<noteq> [] \<and> newline \<notin> set l" by simp
  have s0: "length (SplitN (?ls ! 0) space 3) < 3" by code_simp
  have s1: "length (SplitN (?ls ! 1) space 3) = 3" by code_simp
  have f: "SplitN (?ls ! 1) space 3 ! 0 = ''1:''"
    "SplitN (?ls ! 1) space 3 ! 1 = ''[gray:black]12:00:00[-:-]''"
    "updatedContent ''12'' [] (SplitN (?ls ! 1) space 3 ! 2) = ''a: line [blue:gray]12[-:-]''"
    by code_simp+
  have i0: "0 < length ?ls" and i1: "1 < length ?ls" by simp_all
  from rescan_frame[OF h i0, of "''12''" "[]"] s0
  have a: "Split (rescan ''12'' [] (joinLines ?ls)) newline ! 0 = ''hello''" by simp
  from rescan_frame[OF h i1, of "''12''" "[]"] s1
  have "SplitN (Split (rescan ''12'' [] (joinLines ?ls)) newline ! 1) space 3
      = [SplitN (?ls ! 1) space 3 ! 0, SplitN (?ls ! 1) space 3 ! 1,
         updatedContent ''12'' [] (SplitN (?ls ! 1) space 3 ! 2)]"
    by blast
  with f have b: "SplitN (Split (rescan ''12'' [] (joinLines ?ls)) newline ! 1) space 3
      = [''1:'', ''[gray:black]12:00:00[-:-]'', ''a: line [blue:gray]12[-:-]'']"
    by (simp only:)
  from a b show ?thesis by blast
qed

text \<open>
  C6 as stated fails for banners: the pause banner holds spaces, so it splits into three
  fields, and a search term that occurs in its third field is wrapped there.
\<close>

theorem pause_banner_counterexample:
  "length (SplitN (pauseLine True ''12:00:00'') space 3) = 3
   \<and> SplitN (pauseLine True ''12:00:00'') space 3 ! 1 = ''PAUSED''
   \<and> rescan ''12'' [] (joinLines [pauseLine True ''12:00:00''])
       = joinLines [''[gray:black]'' @ Repeat shade 16 @ '' PAUSED @ [blue:gray]12[-:-]:00:00''
                      @ Repeat shade 16 @ ''[-:-]'']
   \<and> rescan ''12'' [] (joinLines [pauseLine True ''12:00:00''])
       \<noteq> joinLines [pauseLine True ''12:00:00'']"
  by code_simp

text \<open>An empty line is not copied at all.\<close>

lemma rescan_drops_empty_lines:
  "rescan ''12'' [] (joinLines [''x'', [], ''y'']) = joinLines [''x'', ''y'']"
  by code_simp

section \<open>The filter and search round trips\<close>

lemma form_answer_edits:
  "form_answer d hit inp (map Changed edits @ evs)
     = form_answer d (hit \<or> edits \<noteq> []) (if edits = [] then inp else last edits) evs"
  by (induction edits arbitrary: hit inp) auto

lemma form_answer_button:
  assumes "button \<in> {OK, Reset, Cancel}"
  shows "form_answer d False [] (map Changed edits @ button # later)
     = Some (if button = OK then (if edits = [] then d else last edits)
             else if button = Reset then [] else d)"
  using assms by (auto simp: form_answer_edits)

text \<open>
  C4. The user edits the filter field any number of times and presses a button. The
  handler returns a Peek action with the same component and the resulting filter: on
  OK the text of the field (the last edit, or the current filter if there was none), on
  Reset the empty string, on Cancel the current filter; and the announce flag is set.
\<close>

theorem actionFilter_roundtrip:
  assumes "forms e = (map Changed edits @ button # later) # rest"
    and "button \<in> {OK, Reset, Cancel}"
    and "filterStr = (if button = OK then (if edits = [] then PeekFilter action else last edits)
                      else if button = Reset then [] else PeekFilter action)"
  shows "actionFilter c action e
       = HRet \<lparr>Step = StepPeek, PeekComponent = PeekComponent action, PeekFilter = filterStr,
               PeekSearch = [], PeekSearchPrev = []\<rparr>
           ((if filterStr \<noteq> [] then SetMenuEntryOn c ''Filter'' else SetMenuEntryOff c ''Filter'')
              \<lparr>announceFilter := True\<rparr>)
           (e\<lparr>forms := rest\<rparr>)"
  using assms(1,3) form_answer_button[OF assms(2), of "PeekFilter action" edits later]
  by (simp add: actionFilter_def DisplayFilter_def Let_def)

theorem actionFilter_roundtrip_witness:
  "actionFilter New ((action_of StepFilter)\<lparr>PeekComponent := ''a'', PeekFilter := ''ERR''\<rparr>)
       (env0\<lparr>forms := [[Changed ''W'', Changed ''WARN'', OK]]\<rparr>)
     = HRet \<lparr>Step = StepPeek, PeekComponent = ''a'', PeekFilter = ''WARN'', PeekSearch = [],
             PeekSearchPrev = []\<rparr>
         ((SetMenuEntryOn New ''Filter'')\<lparr>announceFilter := True\<rparr>) env0
   \<and> actionFilter New ((action_of StepFilter)\<lparr>PeekComponent := ''a'', PeekFilter := ''ERR''\<rparr>)
       (env0\<lparr>forms := [[Changed ''W'', Reset]]\<rparr>)
     = HRet \<lparr>Step = StepPeek, PeekComponent = ''a'', PeekFilter = [], PeekSearch = [],
             PeekSearchPrev = []\<rparr>
         ((SetMenuEntryOff New ''Filter'')\<lparr>announceFilter := True\<rparr>) env0
   \<and> actionFilter New ((action_of StepFilter)\<lparr>PeekComponent := ''a'', PeekFilter := ''ERR''\<rparr>)
       (env0\<lparr>forms := [[Changed ''W'', Cancel]]\<rparr>)
     = HRet \<lparr>Step = StepPeek, PeekComponent = ''a'', PeekFilter = ''ERR'', PeekSearch = [],
             PeekSearchPrev = []\<rparr>
         ((SetMenuEntryOn New ''Filter'')\<lparr>announceFilter := True\<rparr>) env0"
proof -
  let ?a = "(action_of StepFilter)\<lparr>PeekComponent := ''a'', PeekFilter := ''ERR''\<rparr>"
  have "actionFilter New ?a (env0\<lparr>forms := [[Changed ''W'', Changed ''WARN'', OK]]\<rparr>)
     = HRet \<lparr>Step = StepPeek, PeekComponent = ''a'', PeekFilter = ''WARN'', PeekSearch = [],
             PeekSearchPrev = []\<rparr>
         ((SetMenuEntryOn New ''Filter'')\<lparr>announceFilter := True\<rparr>) env0"
    using actionFilter_roundtrip[of "env0\<lparr>forms := [[Changed ''W'', Changed ''WARN'', OK]]\<rparr>"
        "[''W'', ''WARN'']" OK "[]" "[]" "''WARN''" ?a New]
    by (simp add: env0_def action_of_def)
  moreover have "actionFilter New ?a (env0\<lparr>forms := [[Changed ''W'', Reset]]\<rparr>)
     = HRet \<lparr>Step = StepPeek, PeekComponent = ''a'', PeekFilter = [], PeekSearch = [],
             PeekSearchPrev = []\<rparr>
         ((SetMenuEntryOff New ''Filter'')\<lparr>announceFilter := True\<rparr>) env0"
    using actionFilter_roundtrip[of "env0\<lparr>forms := [[Changed ''W'', Reset]]\<rparr>"
        "[''W'']" Reset "[]" "[]" "[]" ?a New]
    by (simp add: env0_def action_of_def)
  moreover have "actionFilter New ?a (env0\<lparr>forms := [[Changed ''W'', Cancel]]\<rparr>)
     = HRet \<lparr>Step = StepPeek, PeekComponent = ''a'', PeekFilter = ''ERR'', PeekSearch = [],
             PeekSearchPrev = []\<rparr>
         ((SetMenuEntryOn New ''Filter'')\<lparr>announceFilter := True\<rparr>) env0"
    using actionFilter_roundtrip[of "env0\<lparr>forms := [[Changed ''W'', Cancel]]\<rparr>"
        "[''W'']" Cancel "[]" "[]" "''ERR''" ?a New]
    by (simp add: env0_def action_of_def)
  ultimately show ?thesis by blast
qed

text \<open>
  C5. Whatever button ends the search form, the Peek action the Search handler returns
  carries as previous search the search of the action that entered the handler.
\<close>

theorem actionSearch_previousSearch:
  assumes "forms e = (map Changed edits @ button # later) # rest"
    and "button \<in> {OK, Reset, Cancel}"
    and "searchStr = (if button = OK then (if edits = [] then PeekSearch action else last edits)
                      else if button = Reset then [] else PeekSearch action)"
  shows "actionSearch c action e
       = HRet \<lparr>Step = StepPeek, PeekComponent = PeekComponent action, PeekFilter = [],
               PeekSearch = searchStr, PeekSearchPrev = PeekSearch action\<rparr>
           (if searchStr \<noteq> [] then SetMenuEntryOn c ''Search'' else SetMenuEntryOff c ''Search'')
           (e\<lparr>forms := rest\<rparr>)"
  using assms(1,3) form_answer_button[OF assms(2), of "PeekSearch action" edits later]
  by (simp add: actionSearch_def DisplaySearch_def Let_def)

theorem actionSearch_previousSearch_witness:
  "actionSearch New ((action_of StepSearch)\<lparr>PeekComponent := ''a'', PeekSearch := ''foo''\<rparr>)
       (env0\<lparr>forms := [[Changed ''bar'', OK]]\<rparr>)
     = HRet \<lparr>Step = StepPeek, PeekComponent = ''a'', PeekFilter = [], PeekSearch = ''bar'',
             PeekSearchPrev = ''foo''\<rparr>
         (SetMenuEntryOn New ''Search'') env0"
  using actionSearch_previousSearch[of "env0\<lparr>forms := [[Changed ''bar'', OK]]\<rparr>"
      "[''bar'']" OK "[]" "[]" "''bar''"
      "(action_of StepSearch)\<lparr>PeekComponent := ''a'', PeekSearch := ''foo''\<rparr>" New]
  by (simp add: env0_def action_of_def)

text \<open>
  C10. The Peek action returned by the Filter handler has an empty search and an empty
  previous search, and the one returned by the Search handler has an empty filter,
  whatever the action that entered the handler carried; and both handlers do return
  once a button of the form is pressed.
\<close>

theorem round_trip_drops_other_term:
  "(actionFilter c action e = HRet resp c' e' \<longrightarrow> PeekSearch resp = [] \<and> PeekSearchPrev resp = [])
   \<and> (actionSearch c action e = HRet resp c' e' \<longrightarrow> PeekFilter resp = [])
   \<and> (forms e = (map Changed edits @ button # later) # rest \<and> button \<in> {OK, Reset, Cancel} \<longrightarrow>
        (\<exists>r1 c1. actionFilter c action e = HRet r1 c1 (e\<lparr>forms := rest\<rparr>))
      \<and> (\<exists>r2 c2. actionSearch c action e = HRet r2 c2 (e\<lparr>forms := rest\<rparr>)))"
proof (intro conjI impI)
  assume a: "forms e = (map Changed edits @ button # later) # rest \<and> button \<in> {OK, Reset, Cancel}"
  then have b: "button \<in> {OK, Reset, Cancel}" by simp
  show "\<exists>r1 c1. actionFilter c action e = HRet r1 c1 (e\<lparr>forms := rest\<rparr>)"
    using a form_answer_button[OF b, of "PeekFilter action" edits later]
    by (simp add: actionFilter_def DisplayFilter_def Let_def)
  show "\<exists>r2 c2. actionSearch c action e = HRet r2 c2 (e\<lparr>forms := rest\<rparr>)"
    using a form_answer_button[OF b, of "PeekSearch action" edits later]
    by (simp add: actionSearch_def DisplaySearch_def Let_def)
qed (auto simp: actionFilter_def actionSearch_def Let_def split: list.splits option.splits)

theorem round_trip_drops_other_term_witness:
  "actionFilter New \<lparr>Step = StepFilter, PeekComponent = ''a'', PeekFilter = ''ERR'',
        PeekSearch = ''foo'', PeekSearchPrev = ''old''\<rparr> (env0\<lparr>forms := [[OK]]\<rparr>)
     = HRet \<lparr>Step = StepPeek, PeekComponent = ''a'', PeekFilter = ''ERR'', PeekSearch = [],
          PeekSearchPrev = []\<rparr> ((SetMenuEntryOn New ''Filter'')\<lparr>announceFilter := True\<rparr>) env0
   \<and> actionSearch New \<lparr>Step = StepSearch, PeekComponent = ''a'', PeekFilter = ''ERR'',
        PeekSearch = ''foo'', PeekSearchPrev = ''old''\<rparr> (env0\<lparr>forms := [[OK]]\<rparr>)
     = HRet \<lparr>Step = StepPeek, PeekComponent = ''a'', PeekFilter = [], PeekSearch = ''foo'',
          PeekSearchPrev = ''foo''\<rparr> (SetMenuEntryOn New ''Search'') env0"
proof -
  let ?a = "\<lparr>Step = StepFilter, PeekComponent = ''a'', PeekFilter = ''ERR'',
        PeekSearch = ''foo'', PeekSearchPrev = ''old''\<rparr>"
  let ?b = "\<lparr>Step = StepSearch, PeekComponent = ''a'', PeekFilter = ''ERR'',
        PeekSearch = ''foo'', PeekSearchPrev = ''old''\<rparr>"
  let ?e = "env0\<lparr>forms := [[OK]]\<rparr>"
  have h: "forms ?e = (map Changed [] @ OK # []) # [] \<and> OK \<in> {OK, Reset, Cancel}"
    by (simp add: env0_def)
  have e: "?e\<lparr>forms := []\<rparr> = env0" by (simp add: env0_def)
  from round_trip_drops_other_term[where c = New and action = ?a and e = ?e and edits = "[]"
      and button = OK and later = "[]" and rest = "[]", THEN conjunct2, THEN conjunct2,
      THEN mp, OF h, THEN conjunct1] e
  obtain r1 c1 where f: "actionFilter New ?a ?e = HRet r1 c1 env0" by auto
  from round_trip_drops_other_term[where c = New and action = ?b and e = ?e and edits = "[]"
      and button = OK and later = "[]" and rest = "[]", THEN conjunct2, THEN conjunct2,
      THEN mp, OF h, THEN conjunct2] e
  obtain r2 c2 where s: "actionSearch New ?b ?e = HRet r2 c2 env0" by auto
  from f have f': "PeekComponent r1 = ''a''" "PeekFilter r1 = ''ERR''" "Step r1 = StepPeek"
      "c1 = (SetMenuEntryOn New ''Filter'')\<lparr>announceFilter := True\<rparr>"
    by (auto simp: actionFilter_def DisplayFilter_def env0_def Let_def)
  from s have s': "PeekComponent r2 = ''a''" "PeekSearch r2 = ''foo''" "PeekSearchPrev r2 = ''foo''"
      "Step r2 = StepPeek" "c2 = SetMenuEntryOn New ''Search''"
    by (auto simp: actionSearch_def DisplaySearch_def env0_def Let_def)
  from round_trip_drops_other_term[where c = New and action = ?a and e = ?e and resp = r1
      and c' = c1 and e' = env0] f
  have "PeekSearch r1 = [] \<and> PeekSearchPrev r1 = []" by blast
  with f' have "r1 = \<lparr>Step = StepPeek, PeekComponent = ''a'', PeekFilter = ''ERR'', PeekSearch = [],
          PeekSearchPrev = []\<rparr>" by simp
  moreover
  from round_trip_drops_other_term[where c = New and action = ?b and e = ?e and resp = r2
      and c' = c2 and e' = env0] s
  have "PeekFilter r2 = []" by blast
  with s' have "r2 = \<lparr>Step = StepPeek, PeekComponent = ''a'', PeekFilter = [], PeekSearch = ''foo'',
          PeekSearchPrev = ''foo''\<rparr>" by simp
  ultimately show ?thesis using f f' s s' by simp
qed

section \<open>The dispatcher: stack depth and the empty component\<close>

lemma run_frames_aux:
  "frames (run Fprintf depth c action e) + 1
     = depth + length (visited (run Fprintf depth c action e))"
proof (induction Fprintf depth c action e rule: run.induct)
  case (1 Fprintf depth c action e)
  show ?case
  proof (cases "dispatch Fprintf c action e")
    case (HRet resp c' e')
    from 1[OF HRet] have "frames (run Fprintf (Suc depth) c' resp e') + 1
        = Suc depth + length (visited (run Fprintf (Suc depth) c' resp e'))" .
    with HRet show ?thesis by (subst (1 2) run.simps) (simp add: Let_def)
  next
    case (HErr err)
    then show ?thesis by (subst (1 2) run.simps) simp
  next
    case HExit
    then show ?thesis by (subst (1 2) run.simps) simp
  next
    case HBlocked
    then show ?thesis by (subst (1 2) run.simps) simp
  qed
qed

text \<open>
  C9, as amended. \<open>run\<close> calls itself for the action a handler returns, so the number
  of its activations on the stack grows by one with every action dispatched: when a run
  that began at depth \<open>depth\<close> ends, the stack holds \<open>depth - 1\<close> activations plus one for
  each step visited. For \<open>Run\<close> it is the number of steps visited.
\<close>

theorem run_stack_depth:
  "frames (run Fprintf depth c action e) + 1
     = depth + length (visited (run Fprintf depth c action e))
   \<and> frames (Run Fprintf c e) = length (visited (Run Fprintf c e))"
  using run_frames_aux[of Fprintf depth c action e] run_frames_aux[of Fprintf 1 c "action_of StepConnect" e]
  by (simp add: Run_def)

text \<open>
  C9 as stated fails: a session that dispatches two actions ends two activations deep,
  one that dispatches four ends four deep.
\<close>

theorem run_stack_grows_counterexample:
  "Run (\<lambda>s. s) New (env0\<lparr>connects := [(None, True)]\<rparr>)
     = \<lparr>visited = [StepConnect, StepQuit], frames = 2, outcome = Exited\<rparr>
   \<and> Run (\<lambda>s. s) New
       (env0\<lparr>connects := [(Some ''timeout'', False), (Some ''timeout'', False), (None, True)],
              retries := [True, True]\<rparr>)
     = \<lparr>visited = [StepConnect, StepConnect, StepConnect, StepQuit], frames = 4,
         outcome = Exited\<rparr>"
  by code_simp



section \<open>Connect\<close>

lemma run_HRet:
  assumes "dispatch Fprintf c action e = HRet resp c' e'"
  shows "visited (run Fprintf depth c action e)
      = Step action # visited (run Fprintf (Suc depth) c' resp e')"
  using assms by (subst run.simps) (simp add: Let_def)

lemma visited_starts:
  "\<exists>vs. visited (run Fprintf depth c action e) = Step action # vs"
  by (subst run.simps) (simp add: Let_def split: handler_result.splits)

lemma DisplayPeek_key_step:
  "DisplayPeek_key title r = Some cmd \<Longrightarrow>
     Step cmd \<in> {StepQuit, StepSelect, StepPause, StepFilter, StepSearch}"
  by (auto simp: DisplayPeek_key_def action_of_def split: if_splits)

lemma peek_loop_command:
  "peek_loop c action events = Some (cmd, c') \<Longrightarrow>
     Step cmd \<in> {StepQuit, StepSelect, StepPause, StepFilter, StepSearch}
     \<and> PeekComponent cmd = PeekComponent action \<and> PeekFilter cmd = PeekFilter action
     \<and> PeekSearch cmd = PeekSearch action \<and> PeekSearchPrev cmd = PeekSearchPrev action"
proof (induction c action events rule: peek_loop.induct)
  case (1 c action)
  then show ?case by simp
next
  case (2 c action r now events)
  show ?case
  proof (cases "DisplayPeek_key (PeekComponent action) r")
    case None
    with 2 show ?thesis by simp
  next
    case (Some k)
    from DisplayPeek_key_step[OF Some] 2(2) Some show ?thesis
      by (auto simp: Let_def)
  qed
next
  case (3 c action data i now events)
  then show ?case by (simp add: Let_def split: if_splits)
qed

lemma actionPeek_HRet:
  assumes "actionPeek Fprintf c action e = HRet resp c' e'"
  shows "Step resp \<in> {StepQuit, StepSelect, StepPause, StepFilter, StepSearch}
     \<and> PeekComponent resp = PeekComponent action \<and> PeekFilter resp = PeekFilter action
     \<and> PeekSearch resp = PeekSearch action \<and> PeekSearchPrev resp = PeekSearchPrev action"
proof -
  from assms obtain c2 events where "peek_loop c2 action events = Some (resp, c')"
    by (auto simp: actionPeek_def peek_def Let_def
          split: if_splits list.splits option.splits prod.splits handler_result.splits)
  then show ?thesis by (rule peek_loop_command)
qed

lemma dispatch_not_connect:
  assumes "dispatch Fprintf c action e = HRet resp c' e'" "Step action \<noteq> StepConnect"
  shows "Step resp \<noteq> StepConnect"
proof (cases "Step action")
  case StepConnect
  with assms show ?thesis by simp
next
  case StepSelect
  with assms(1) show ?thesis
    by (auto simp: dispatch_def actionSelect_def action_of_def
          split: list.splits prod.splits sum.splits if_splits select_event.splits)
next
  case StepPeek
  with assms(1) have "actionPeek Fprintf c action e = HRet resp c' e'"
    by (simp add: dispatch_def)
  from actionPeek_HRet[OF this] show ?thesis by auto
next
  case StepFilter
  with assms(1) show ?thesis
    by (auto simp: dispatch_def actionFilter_def Let_def split: list.splits option.splits)
next
  case StepSearch
  with assms(1) show ?thesis
    by (auto simp: dispatch_def actionSearch_def Let_def split: list.splits option.splits)
next
  case StepPause
  with assms(1) have "actionPeek Fprintf c action e = HRet resp c' e'"
    by (simp add: dispatch_def)
  from actionPeek_HRet[OF this] show ?thesis by auto
next
  case StepQuit
  with assms(1) show ?thesis by (simp add: dispatch_def)
next
  case (StepOther n)
  with assms(1) show ?thesis by (simp add: dispatch_def)
qed

lemma visited_no_connect:
  "Step action \<noteq> StepConnect \<Longrightarrow> StepConnect \<notin> set (visited (run Fprintf depth c action e))"
proof (induction Fprintf depth c action e rule: run.induct)
  case (1 Fprintf depth c action e)
  show ?case
  proof (cases "dispatch Fprintf c action e")
    case (HRet resp c' e')
    from dispatch_not_connect[OF HRet 1(2)] 1(1)[OF HRet]
    have "StepConnect \<notin> set (visited (run Fprintf (Suc depth) c' resp e'))" by blast
    with 1(2) show ?thesis by (simp add: run_HRet[OF HRet])
  next
    case (HErr err)
    with 1(2) show ?thesis by (subst run.simps) simp
  next
    case HExit
    with 1(2) show ?thesis by (subst run.simps) simp
  next
    case HBlocked
    with 1(2) show ?thesis by (subst run.simps) simp
  qed
qed

lemma connect_fails_twice:
  assumes "connects e = (Some m1, False) # (Some m2, False) # (None, False) # rest"
    and "retries e = True # True # answers"
  shows "visited (run Fprintf depth c (action_of StepConnect) e)
       = StepConnect # StepConnect # StepConnect
           # visited (run Fprintf (Suc (Suc (Suc depth))) (c\<lparr>api := True\<rparr>) (action_of StepSelect)
                (e\<lparr>connects := rest, retries := answers\<rparr>))"
proof -
  let ?A = "action_of StepConnect"
  let ?e1 = "e\<lparr>connects := (Some m2, False) # (None, False) # rest, retries := True # answers\<rparr>"
  let ?e2 = "e\<lparr>connects := (None, False) # rest, retries := answers\<rparr>"
  let ?e3 = "e\<lparr>connects := rest, retries := answers\<rparr>"
  have s: "Step ?A = StepConnect" by (simp add: action_of_def)
  have d1: "dispatch Fprintf c ?A e = HRet ?A c ?e1"
    using assms by (simp add: dispatch_def s actionConnect_def)
  have d2: "dispatch Fprintf c ?A ?e1 = HRet ?A c ?e2"
    by (simp add: dispatch_def s actionConnect_def)
  have d3: "dispatch Fprintf c ?A ?e2 = HRet (action_of StepSelect) (c\<lparr>api := True\<rparr>) ?e3"
    by (simp add: dispatch_def s actionConnect_def)
  show ?thesis
    by (simp add: run_HRet[OF d1] run_HRet[OF d2] run_HRet[OF d3] s)
qed

text \<open>
  A connection that fails twice, each failure answered with retry and no cancel, and
  then succeeds: the run visits Connect three times, then Select, and Connect never
  again.
\<close>

lemma connect_scenario:
  assumes "connects e = (Some m1, False) # (Some m2, False) # (None, False) # rest"
    and "retries e = True # True # later"
  shows "take 4 (visited (Run Fprintf c e)) = [StepConnect, StepConnect, StepConnect, StepSelect]"
    and "count_list (visited (Run Fprintf c e)) StepConnect = 3"
proof -
  let ?r = "run Fprintf 4 (c\<lparr>api := True\<rparr>) (action_of StepSelect)
              (e\<lparr>connects := rest, retries := later\<rparr>)"
  have v: "visited (Run Fprintf c e) = StepConnect # StepConnect # StepConnect # visited ?r"
    using connect_fails_twice[OF assms, of Fprintf 1 c]
    by (simp add: Run_def eval_nat_numeral)
  obtain vs where vs: "visited ?r = StepSelect # vs"
    using visited_starts[of Fprintf 4 "c\<lparr>api := True\<rparr>" "action_of StepSelect"]
    by (auto simp: action_of_def)
  have "StepConnect \<notin> set (visited ?r)"
    by (rule visited_no_connect) (simp add: action_of_def)
  then have n: "count_list (visited ?r) StepConnect = 0" by (simp add: count_list_0_iff)
  show "take 4 (visited (Run Fprintf c e)) = [StepConnect, StepConnect, StepConnect, StepSelect]"
    by (simp add: v vs)
  show "count_list (visited (Run Fprintf c e)) StepConnect = 3"
    by (simp add: v n)
qed

text \<open>
  C7 fails on the code. The handler sets \<open>userQuit\<close> and cancels the context when the
  user presses Cancel on the spinner, and returns Quit for \<open>userQuit\<close> once \<open>connect\<close> has
  returned without error; but it tests the error of \<open>connect\<close> first. When the attempt
  fails after the cancel, the retry dialog is shown and, answered with retry, the next
  action is Connect, not Quit, and the run goes on to Select.
\<close>

theorem cancel_then_retry:
  "actionConnect New (action_of StepConnect)
       (env0\<lparr>connects := [(Some ''context canceled'', True)], retries := [True]\<rparr>)
     = HRet (action_of StepConnect) New env0
   \<and> Step (action_of StepConnect) \<noteq> StepQuit
   \<and> Run (\<lambda>s. s) New
       (env0\<lparr>connects := [(Some ''context canceled'', True), (None, False)], retries := [True]\<rparr>)
     = \<lparr>visited = [StepConnect, StepConnect, StepSelect], frames = 3, outcome = Blocked\<rparr>"
  by code_simp

section \<open>Pause\<close>

lemma Action_Step_update:
  "(action_of StepPause)\<lparr>PeekComponent := PeekComponent action, PeekFilter := PeekFilter action,
      PeekSearch := PeekSearch action, PeekSearchPrev := PeekSearchPrev action\<rparr>
     = action\<lparr>Step := StepPause\<rparr>"
  by (simp add: action_of_def)

text \<open>What the loop does with the pause key, in any state.\<close>

lemma peek_loop_pause:
  "peek_loop c action (Key (CHR ''p'') now # events)
     = Some (action\<lparr>Step := StepPause\<rparr>,
             c\<lparr>paused := \<not> paused c,
               menu := toggleMenuEntry (menu c) ''Pause'' (\<not> paused c),
               textview := Some (view_text c @ pauseLine (\<not> paused c) now @ [newline])\<rparr>)"
  by (simp add: DisplayPeek_key_def Action_Step_update Let_def SetMenuEntryOn_def
        SetMenuEntryOff_def Fprint_def view_text_def action_of_def)

text \<open>
  C1 fails on the code. The comment above \<open>actionPeek\<close> says that a pause is handled
  entirely inside \<open>peek\<close> and is not sent back, and the comment in the loop says the
  same; but the pause block has no \<open>continue\<close>. With the pause key as the first event,
  the loop sets the flag, switches the menu entry, writes the banner and returns a Pause
  action; the line that follows is not read by this call. A run in which the user types
  \<open>p\<close> and then \<open>q\<close> visits Peek, Pause and Quit.
\<close>

theorem pause_leaves_loop:
  "peek_loop (New\<lparr>textview := Some []\<rparr>) ((action_of StepPeek)\<lparr>PeekComponent := ''a''\<rparr>)
       [Key (CHR ''p'') ''12:00:01'', Data ''a: line 1'' 1 ''12:00:02'']
     = Some ((action_of StepPause)\<lparr>PeekComponent := ''a''\<rparr>,
             New\<lparr>textview := Some (pauseLine True ''12:00:01'' @ [newline]), paused := True,
                 menu := toggleMenuEntry MenuString ''Pause'' True\<rparr>)
   \<and> run (\<lambda>s. s) 1 New ((action_of StepPeek)\<lparr>PeekComponent := ''a''\<rparr>)
       (env0\<lparr>peeks := [(''12:00:00'', [Key (CHR ''p'') ''12:00:01'']),
                        (''12:00:01'', [Key (CHR ''q'') ''12:00:05''])]\<rparr>)
     = \<lparr>visited = [StepPeek, StepPause, StepQuit], frames = 3, outcome = Exited\<rparr>"
  by code_simp

end
